theory Spec2Isabelle
  imports Complex_Main "HOL-Library.Word" "HOL-Library.Log_Nat"
begin

section \<open>The blur helper of the Cairo binding (\<open>surface_blur\<close> in \<open>src/cairo.cpp\<close>)\<close>

text \<open>
  The function blurs the pixel buffer of an image surface in place. It walks two raw
  pointers through memory: \<open>pix\<close> through the bytes of the surface (\<open>src\<close>) and
  \<open>pre\<close> through a scratch array of \<open>unsigned\<close> (\<open>precalc\<close>). In the model a pointer is
  the integer offset from the start of its array, every access checks the offset against
  the array, and an access outside the array is the result \<open>OutOfBounds\<close>. The conversion
  of a \<open>double\<close> to \<open>unsigned char\<close> is undefined in C++ when the truncated value does
  not fit the byte; that is the result \<open>UndefinedConversion\<close>, and the run stops there.
\<close>

datatype error = OutOfBounds | UndefinedConversion

definition rd :: "'a list \<Rightarrow> int \<Rightarrow> error + 'a" where
  "rd xs i = (if 0 \<le> i \<and> i < int (length xs) then Inr (xs ! nat i) else Inl OutOfBounds)"

definition wr :: "'a list \<Rightarrow> int \<Rightarrow> 'a \<Rightarrow> error + 'a list" where
  "wr xs i v = (if 0 \<le> i \<and> i < int (length xs) then Inr (xs[nat i := v]) else Inl OutOfBounds)"

definition bnd :: "error + 'a \<Rightarrow> ('a \<Rightarrow> error + 'b) \<Rightarrow> error + 'b" where
  "bnd m f = (case m of Inl e \<Rightarrow> Inl e | Inr v \<Rightarrow> f v)"

subsection \<open>Floating point\<close>

text \<open>
  The only floating-point computations are \<open>double mul = 1.f / n\<close> for an \<open>int\<close> \<open>n\<close>
  (a single-precision division, widened to double afterwards) and \<open>tot * mul\<close> for an
  \<open>int\<close> \<open>tot\<close> (a double-precision product). They are modelled exactly, for IEEE 754
  binary32 and binary64 with round-to-nearest-even and every operation rounded to its
  own type: a finite value is \<open>Fin m e\<close>, standing for \<open>m * 2 ^ e\<close>. The operands here
  are 32-bit integers and reciprocals of such, so no result leaves the exponent range
  of its format and none is subnormal; the exponent is therefore left unbounded.
\<close>

datatype fp = Fin int int | PInf | NInf | NaN

text \<open>\<open>rne a b\<close>: the integer nearest to \<open>a / b\<close> (for \<open>b > 0\<close>), ties to even.\<close>

definition rne :: "int \<Rightarrow> int \<Rightarrow> int" where
  "rne a b = (let q = a div b; r = a mod b in
     if 2 * r < b then q else if 2 * r > b then q + 1 else if even q then q else q + 1)"

text \<open>\<open>scaled a b e\<close> is the fraction \<open>(a / b) / 2 ^ e\<close> as numerator and denominator.\<close>

definition scaled :: "int \<Rightarrow> int \<Rightarrow> int \<Rightarrow> int \<times> int" where
  "scaled a b e = (a * 2 ^ nat (- e), b * 2 ^ nat e)"

text \<open>
  \<open>round_to p a b\<close>: the positive fraction \<open>a / b\<close> rounded to \<open>p\<close> significant bits,
  as mantissa and exponent.
\<close>

definition round_to :: "nat \<Rightarrow> int \<Rightarrow> int \<Rightarrow> int \<times> int" where
  "round_to p a b = (let e0 = bitlen a - bitlen b - int p;
       e = (case scaled a b e0 of (n, d) \<Rightarrow> if 2 ^ p * d \<le> n then e0 + 1 else e0)
     in case scaled a b e of (n, d) \<Rightarrow> (rne n d, e))"

text \<open>\<open>(float) n\<close> for an \<open>int\<close> \<open>n\<close>.\<close>

definition float_of_int :: "int \<Rightarrow> fp" where
  "float_of_int n = (if n = 0 then Fin 0 0
     else case round_to 24 \<bar>n\<bar> 1 of (m, e) \<Rightarrow> Fin (sgn n * m) e)"

text \<open>\<open>1.f / d\<close> in single precision; \<open>1.f / 0.f\<close> is \<open>+inf\<close>.\<close>

fun float_recip :: "fp \<Rightarrow> fp" where
  "float_recip (Fin m e) = (if m = 0 then PInf
     else case scaled 1 \<bar>m\<bar> e of (n, d) \<Rightarrow>
       (case round_to 24 n d of (m', e') \<Rightarrow> Fin (sgn m * m') e'))"
| "float_recip PInf = Fin 0 0"
| "float_recip NInf = Fin 0 0"
| "float_recip NaN = NaN"

text \<open>
  \<open>tot * mul\<close> in double precision, \<open>tot\<close> an \<open>int\<close> (exact as a double) and \<open>mul\<close> a
  double.
\<close>

fun double_mul :: "int \<Rightarrow> fp \<Rightarrow> fp" where
  "double_mul tot (Fin m e) = (if tot * m = 0 then Fin 0 0
     else case round_to 53 \<bar>tot * m\<bar> 1 of (m', e') \<Rightarrow> Fin (sgn (tot * m) * m') (e' + e))"
| "double_mul tot PInf = (if tot = 0 then NaN else if 0 < tot then PInf else NInf)"
| "double_mul tot NInf = (if tot = 0 then NaN else if 0 < tot then NInf else PInf)"
| "double_mul tot NaN = NaN"

text \<open>
  \<open>(unsigned char) d\<close>: the value is truncated towards zero; the behaviour is undefined
  when the truncated value is not one of 0..255, and for infinities and NaN.
\<close>

fun to_uchar :: "fp \<Rightarrow> error + 8 word" where
  "to_uchar (Fin m e) = (let v = (if 0 \<le> e then m * 2 ^ nat e else sgn m * (\<bar>m\<bar> div 2 ^ nat (- e)))
     in if 0 \<le> v \<and> v \<le> 255 then Inr (word_of_int v) else Inl UndefinedConversion)"
| "to_uchar PInf = Inl UndefinedConversion"
| "to_uchar NInf = Inl UndefinedConversion"
| "to_uchar NaN = Inl UndefinedConversion"

text \<open>A value of type \<open>int\<close>: 32 bits, two's complement.\<close>

definition int32 :: "int \<Rightarrow> int" where
  "int32 i = sint (word_of_int i :: 32 word)"

text \<open>\<open>double mul = 1.f / ((radius * 2) * (radius * 2))\<close>\<close>

definition mul_of :: "int \<Rightarrow> fp" where
  "mul_of radius = float_recip (float_of_int (int32 ((radius * 2) * (radius * 2))))"

subsection \<open>The precomputation step\<close>

text \<open>
  The body of the inner loop. \<open>tot\<close> is an \<open>int\<close> to which \<open>unsigned\<close> values are added
  and which is stored as \<open>unsigned\<close>: each step is arithmetic modulo \<open>2 ^ 32\<close>, so \<open>tot\<close>
  is a 32-bit word.
\<close>

definition prefix_cell ::
  "int \<Rightarrow> 8 word list \<Rightarrow> int \<Rightarrow> int \<Rightarrow> int \<Rightarrow> int \<Rightarrow> 32 word list \<Rightarrow> error + 32 word list" where
  "prefix_cell width src x y pix pre precalc =
     bnd (rd src pix) (\<lambda>p.
     bnd (if x > 0 then rd precalc (pre - 1) else Inr 0) (\<lambda>left.
     bnd (if y > 0 then rd precalc (pre - width) else Inr 0) (\<lambda>above.
     bnd (if x > 0 \<and> y > 0 then rd precalc (pre - width - 1) else Inr 0) (\<lambda>diag.
     wr precalc pre (ucast p + left + above - diag)))))"

function prefix_x ::
  "int \<Rightarrow> 8 word list \<Rightarrow> int \<Rightarrow> int \<Rightarrow> int \<Rightarrow> int \<Rightarrow> 32 word list
     \<Rightarrow> error + (int \<times> int \<times> 32 word list)" where
  "prefix_x width src y x pix pre precalc =
     (if x < width then
        bnd (prefix_cell width src x y pix pre precalc) (\<lambda>precalc'.
          prefix_x width src y (x + 1) (pix + 4) (pre + 1) precalc')
      else Inr (pix, pre, precalc))"
  by pat_completeness auto

termination
  by (relation "measure (\<lambda>(width, src, y, x, pix, pre, precalc). nat (width - x))") auto

function prefix_y ::
  "int \<Rightarrow> int \<Rightarrow> 8 word list \<Rightarrow> int \<Rightarrow> int \<Rightarrow> int \<Rightarrow> 32 word list \<Rightarrow> error + 32 word list" where
  "prefix_y width height src y pix pre precalc =
     (if y < height then
        bnd (prefix_x width src y 0 pix pre precalc) (\<lambda>(pix', pre', precalc').
          prefix_y width height src (y + 1) pix' pre' precalc')
      else Inr precalc)"
  by pat_completeness auto

termination
  by (relation "measure (\<lambda>(width, height, src, y, pix, pre, precalc). nat (height - y))") auto

declare prefix_x.simps [simp del] prefix_y.simps [simp del]

subsection \<open>The blur step\<close>

definition blur_cell ::
  "fp \<Rightarrow> int \<Rightarrow> int \<Rightarrow> int \<Rightarrow> 32 word list \<Rightarrow> int \<Rightarrow> int \<Rightarrow> int \<Rightarrow> 8 word list
     \<Rightarrow> error + 8 word list" where
  "blur_cell mul radius width height precalc x y pix src =
     (let l = (if x < radius then 0 else x - radius);
          t = (if y < radius then 0 else y - radius);
          r = (if x + radius \<ge> width then width - 1 else x + radius);
          b = (if y + radius \<ge> height then height - 1 else y + radius)
      in bnd (rd precalc (r + b * width)) (\<lambda>rb.
         bnd (rd precalc (l + t * width)) (\<lambda>lt.
         bnd (rd precalc (l + b * width)) (\<lambda>lb.
         bnd (rd precalc (r + t * width)) (\<lambda>rt.
         bnd (to_uchar (double_mul (sint (rb + lt - lb - rt)) mul)) (\<lambda>v.
         wr src pix v))))))"

function blur_x ::
  "fp \<Rightarrow> int \<Rightarrow> int \<Rightarrow> int \<Rightarrow> 32 word list \<Rightarrow> int \<Rightarrow> int \<Rightarrow> int \<Rightarrow> 8 word list
     \<Rightarrow> error + (int \<times> 8 word list)" where
  "blur_x mul radius width height precalc y x pix src =
     (if x < width - radius then
        bnd (blur_cell mul radius width height precalc x y pix src) (\<lambda>src'.
          blur_x mul radius width height precalc y (x + 1) (pix + 4) src')
      else Inr (pix, src))"
  by pat_completeness auto

termination
  by (relation "measure (\<lambda>(mul, radius, width, height, precalc, y, x, pix, src).
        nat (width - radius - x))") auto

function blur_y ::
  "fp \<Rightarrow> int \<Rightarrow> int \<Rightarrow> int \<Rightarrow> 32 word list \<Rightarrow> int \<Rightarrow> int \<Rightarrow> 8 word list
     \<Rightarrow> error + 8 word list" where
  "blur_y mul radius width height precalc y pix src =
     (if y < height - radius then
        bnd (blur_x mul radius width height precalc y radius pix src) (\<lambda>(pix', src').
          blur_y mul radius width height precalc (y + 1) (pix' + radius * 2 * 4) src')
      else Inr src)"
  by pat_completeness auto

termination
  by (relation "measure (\<lambda>(mul, radius, width, height, precalc, y, pix, src).
        nat (height - radius - y))") auto

declare blur_x.simps [simp del] blur_y.simps [simp del]

subsection \<open>Channels, iterations and the whole call\<close>

text \<open>The body of the loop over the channels: both steps for one channel.\<close>

definition channel_pass ::
  "fp \<Rightarrow> int \<Rightarrow> int \<Rightarrow> int \<Rightarrow> int \<Rightarrow> 8 word list \<times> 32 word list
     \<Rightarrow> error + (8 word list \<times> 32 word list)" where
  "channel_pass mul radius width height channel st =
     (case st of (src, precalc) \<Rightarrow>
        bnd (prefix_y width height src 0 channel 0 precalc) (\<lambda>precalc'.
        bnd (blur_y mul radius width height precalc' radius
               (radius * width * 4 + radius * 4 + channel) src) (\<lambda>src'.
        Inr (src', precalc'))))"

function channel_loop ::
  "fp \<Rightarrow> int \<Rightarrow> int \<Rightarrow> int \<Rightarrow> int \<Rightarrow> 8 word list \<times> 32 word list
     \<Rightarrow> error + (8 word list \<times> 32 word list)" where
  "channel_loop mul radius width height channel st =
     (if channel < 4 then
        bnd (channel_pass mul radius width height channel st)
          (channel_loop mul radius width height (channel + 1))
      else Inr st)"
  by pat_completeness auto

termination
  by (relation "measure (\<lambda>(mul, radius, width, height, channel, st). nat (4 - channel))") auto

definition MAX_ITERATIONS :: int where
  "MAX_ITERATIONS = 3"

function iteration_loop ::
  "fp \<Rightarrow> int \<Rightarrow> int \<Rightarrow> int \<Rightarrow> int \<Rightarrow> 8 word list \<times> 32 word list
     \<Rightarrow> error + (8 word list \<times> 32 word list)" where
  "iteration_loop mul radius width height iteration st =
     (if iteration < MAX_ITERATIONS then
        bnd (channel_loop mul radius width height 0 st)
          (iteration_loop mul radius width height (iteration + 1))
      else Inr st)"
  by pat_completeness auto

termination
  by (relation "measure (\<lambda>(mul, radius, width, height, iteration, st).
        nat (MAX_ITERATIONS - iteration))") auto

declare channel_loop.simps [simp del] iteration_loop.simps [simp del]

text \<open>
  An image surface, as the function reads it through
  \<open>cairo_image_surface_get_width\<close>, \<open>cairo_image_surface_get_height\<close> and
  \<open>cairo_image_surface_get_data\<close>.
\<close>

record surface =
  surf_width :: int
  surf_height :: int
  surf_data :: "8 word list"

text \<open>
  \<open>malloc\<close> returns memory of unspecified contents: \<open>heap\<close> gives the word found at
  each index of the new array.
\<close>

definition malloc_unsigned :: "(nat \<Rightarrow> 32 word) \<Rightarrow> int \<Rightarrow> 32 word list" where
  "malloc_unsigned heap n = map heap [0..<nat n]"

text \<open>
  The call: the radius is decremented first, and everything after uses the decremented
  value. The result is the buffer of the surface after the call.
\<close>

definition surface_blur :: "(nat \<Rightarrow> 32 word) \<Rightarrow> surface \<Rightarrow> int \<Rightarrow> error + 8 word list" where
  "surface_blur heap surf radius0 =
     (let radius = radius0 - 1;
          width = surf_width surf;
          height = surf_height surf;
          precalc = malloc_unsigned heap (width * height);
          src = surf_data surf;
          mul = mul_of radius
      in bnd (iteration_loop mul radius width height 0 (src, precalc))
           (\<lambda>(src', precalc'). Inr src'))"

section \<open>The compiled conversion\<close>

text \<open>
  C++ leaves the conversion of a double to \<open>unsigned char\<close> undefined when the truncated
  value is not a byte, and the loops above stop there. Compiled code does not stop: the
  conversion delivers some byte, the byte is stored and the loops go on. The loops below
  are the loops above with this reading of the one conversion, everything else as it was:
  \<open>ub\<close> gives the byte that a conversion without a defined value delivers, and what is
  proved of these loops is proved for every \<open>ub\<close>.
\<close>

definition machine_uchar :: "(fp \<Rightarrow> 8 word) \<Rightarrow> fp \<Rightarrow> 8 word" where
  "machine_uchar ub d = (case to_uchar d of Inr v \<Rightarrow> v | Inl e \<Rightarrow> ub d)"

definition blur_cell_m ::
  "(fp \<Rightarrow> 8 word) \<Rightarrow> fp \<Rightarrow> int \<Rightarrow> int \<Rightarrow> int \<Rightarrow> 32 word list \<Rightarrow> int \<Rightarrow> int \<Rightarrow> int
     \<Rightarrow> 8 word list \<Rightarrow> error + 8 word list" where
  "blur_cell_m ub mul radius width height precalc x y pix src =
     (let l = (if x < radius then 0 else x - radius);
          t = (if y < radius then 0 else y - radius);
          r = (if x + radius \<ge> width then width - 1 else x + radius);
          b = (if y + radius \<ge> height then height - 1 else y + radius)
      in bnd (rd precalc (r + b * width)) (\<lambda>rb.
         bnd (rd precalc (l + t * width)) (\<lambda>lt.
         bnd (rd precalc (l + b * width)) (\<lambda>lb.
         bnd (rd precalc (r + t * width)) (\<lambda>rt.
         wr src pix (machine_uchar ub (double_mul (sint (rb + lt - lb - rt)) mul)))))))"

function blur_x_m ::
  "(fp \<Rightarrow> 8 word) \<Rightarrow> fp \<Rightarrow> int \<Rightarrow> int \<Rightarrow> int \<Rightarrow> 32 word list \<Rightarrow> int \<Rightarrow> int \<Rightarrow> int
     \<Rightarrow> 8 word list \<Rightarrow> error + (int \<times> 8 word list)" where
  "blur_x_m ub mul radius width height precalc y x pix src =
     (if x < width - radius then
        bnd (blur_cell_m ub mul radius width height precalc x y pix src) (\<lambda>src'.
          blur_x_m ub mul radius width height precalc y (x + 1) (pix + 4) src')
      else Inr (pix, src))"
  by pat_completeness auto

termination
  by (relation "measure (\<lambda>(ub, mul, radius, width, height, precalc, y, x, pix, src).
        nat (width - radius - x))") auto

function blur_y_m ::
  "(fp \<Rightarrow> 8 word) \<Rightarrow> fp \<Rightarrow> int \<Rightarrow> int \<Rightarrow> int \<Rightarrow> 32 word list \<Rightarrow> int \<Rightarrow> int
     \<Rightarrow> 8 word list \<Rightarrow> error + 8 word list" where
  "blur_y_m ub mul radius width height precalc y pix src =
     (if y < height - radius then
        bnd (blur_x_m ub mul radius width height precalc y radius pix src) (\<lambda>(pix', src').
          blur_y_m ub mul radius width height precalc (y + 1) (pix' + radius * 2 * 4) src')
      else Inr src)"
  by pat_completeness auto

termination
  by (relation "measure (\<lambda>(ub, mul, radius, width, height, precalc, y, pix, src).
        nat (height - radius - y))") auto

declare blur_x_m.simps [simp del] blur_y_m.simps [simp del]

definition channel_pass_m ::
  "(fp \<Rightarrow> 8 word) \<Rightarrow> fp \<Rightarrow> int \<Rightarrow> int \<Rightarrow> int \<Rightarrow> int \<Rightarrow> 8 word list \<times> 32 word list
     \<Rightarrow> error + (8 word list \<times> 32 word list)" where
  "channel_pass_m ub mul radius width height channel st =
     (case st of (src, precalc) \<Rightarrow>
        bnd (prefix_y width height src 0 channel 0 precalc) (\<lambda>precalc'.
        bnd (blur_y_m ub mul radius width height precalc' radius
               (radius * width * 4 + radius * 4 + channel) src) (\<lambda>src'.
        Inr (src', precalc'))))"

function channel_loop_m ::
  "(fp \<Rightarrow> 8 word) \<Rightarrow> fp \<Rightarrow> int \<Rightarrow> int \<Rightarrow> int \<Rightarrow> int \<Rightarrow> 8 word list \<times> 32 word list
     \<Rightarrow> error + (8 word list \<times> 32 word list)" where
  "channel_loop_m ub mul radius width height channel st =
     (if channel < 4 then
        bnd (channel_pass_m ub mul radius width height channel st)
          (channel_loop_m ub mul radius width height (channel + 1))
      else Inr st)"
  by pat_completeness auto

termination
  by (relation "measure (\<lambda>(ub, mul, radius, width, height, channel, st). nat (4 - channel))")
    auto

function iteration_loop_m ::
  "(fp \<Rightarrow> 8 word) \<Rightarrow> fp \<Rightarrow> int \<Rightarrow> int \<Rightarrow> int \<Rightarrow> int \<Rightarrow> 8 word list \<times> 32 word list
     \<Rightarrow> error + (8 word list \<times> 32 word list)" where
  "iteration_loop_m ub mul radius width height iteration st =
     (if iteration < MAX_ITERATIONS then
        bnd (channel_loop_m ub mul radius width height 0 st)
          (iteration_loop_m ub mul radius width height (iteration + 1))
      else Inr st)"
  by pat_completeness auto

termination
  by (relation "measure (\<lambda>(ub, mul, radius, width, height, iteration, st).
        nat (MAX_ITERATIONS - iteration))") auto

declare channel_loop_m.simps [simp del] iteration_loop_m.simps [simp del]

definition surface_blur_m ::
  "(fp \<Rightarrow> 8 word) \<Rightarrow> (nat \<Rightarrow> 32 word) \<Rightarrow> surface \<Rightarrow> int \<Rightarrow> error + 8 word list" where
  "surface_blur_m ub heap surf radius0 =
     (let radius = radius0 - 1;
          width = surf_width surf;
          height = surf_height surf;
          precalc = malloc_unsigned heap (width * height);
          src = surf_data surf;
          mul = mul_of radius
      in bnd (iteration_loop_m ub mul radius width height 0 (src, precalc))
           (\<lambda>(src', precalc'). Inr src'))"

section \<open>Specification vocabulary\<close>

text \<open>
  A pixel buffer is well formed for the call when both dimensions are positive and the
  buffer has four bytes for each pixel (no row padding: the function takes the stride
  to be \<open>width * 4\<close>). Cairo creates no image surface wider or higher than 32767
  pixels; within that bound every \<open>int\<close> the function computes for a pixel it visits
  (an index into the scratch array, the offset of the first pixel, the square
  \<open>(radius * 2) * (radius * 2)\<close>) stays below \<open>2 ^ 31\<close>, which is why the model
  computes offsets over the unbounded integers. The scratch array has one word for each
  pixel.
\<close>

definition wf_buffers :: "int \<Rightarrow> int \<Rightarrow> 8 word list \<Rightarrow> 32 word list \<Rightarrow> bool" where
  "wf_buffers width height src precalc \<longleftrightarrow>
     0 < width \<and> width \<le> 32767 \<and> 0 < height \<and> height \<le> 32767
     \<and> int (length src) = 4 * width * height
     \<and> int (length precalc) = width * height"

text \<open>The same for a surface, before the scratch array exists.\<close>

definition well_formed :: "surface \<Rightarrow> bool" where
  "well_formed surf \<longleftrightarrow>
     0 < surf_width surf \<and> surf_width surf \<le> 32767
     \<and> 0 < surf_height surf \<and> surf_height surf \<le> 32767
     \<and> int (length (surf_data surf)) = 4 * surf_width surf * surf_height surf"

text \<open>The offset in the buffer of the byte of a channel at pixel \<open>(x, y)\<close>.\<close>

definition offset :: "int \<Rightarrow> int \<Rightarrow> int \<Rightarrow> int \<Rightarrow> int" where
  "offset width channel x y = 4 * (y * width + x) + channel"

text \<open>The byte of a channel at pixel \<open>(x, y)\<close>, as an integer.\<close>

definition chan :: "int \<Rightarrow> int \<Rightarrow> 8 word list \<Rightarrow> int \<Rightarrow> int \<Rightarrow> int" where
  "chan width channel src x y = uint (src ! nat (offset width channel x y))"

text \<open>The inclusive two-dimensional prefix sum of \<open>f\<close>, over the integers.\<close>

definition psum :: "(int \<Rightarrow> int \<Rightarrow> int) \<Rightarrow> int \<Rightarrow> int \<Rightarrow> int" where
  "psum f x y = (\<Sum>j = 0..y. \<Sum>i = 0..x. f i j)"

text \<open>The sum of \<open>f\<close> over the columns \<open>l + 1 .. r\<close> of the rows \<open>t + 1 .. b\<close>.\<close>

definition wsum :: "(int \<Rightarrow> int \<Rightarrow> int) \<Rightarrow> int \<Rightarrow> int \<Rightarrow> int \<Rightarrow> int \<Rightarrow> int" where
  "wsum f l r t b = (\<Sum>j = t + 1..b. \<Sum>i = l + 1..r. f i j)"

text \<open>
  The word the precomputation step leaves at index \<open>k\<close> of the scratch array, and the
  whole array.
\<close>

definition pval :: "int \<Rightarrow> int \<Rightarrow> 8 word list \<Rightarrow> int \<Rightarrow> 32 word" where
  "pval width channel src k =
     word_of_int (psum (chan width channel src) (k mod width) (k div width))"

definition ptable :: "int \<Rightarrow> int \<Rightarrow> int \<Rightarrow> 8 word list \<Rightarrow> 32 word list" where
  "ptable width height channel src =
     map (\<lambda>k. pval width channel src (int k)) [0..<nat (width * height)]"

text \<open>
  The pixels the blur step rewrites: the rectangle inset by \<open>radius\<close> from each edge.
\<close>

definition inset :: "int \<Rightarrow> int \<Rightarrow> int \<Rightarrow> int \<Rightarrow> int \<Rightarrow> bool" where
  "inset radius width height x y \<longleftrightarrow>
     radius \<le> x \<and> x < width - radius \<and> radius \<le> y \<and> y < height - radius"

text \<open>
  The windowed sum at pixel \<open>(x, y)\<close> taken from a scratch array, with the corners of
  the window clamped to the image, and the byte the blur step makes of it.
\<close>

definition tot_at :: "int \<Rightarrow> int \<Rightarrow> int \<Rightarrow> 32 word list \<Rightarrow> int \<Rightarrow> int \<Rightarrow> 32 word" where
  "tot_at radius width height precalc x y =
     (let l = max 0 (x - radius); t = max 0 (y - radius);
          r = min (width - 1) (x + radius); b = min (height - 1) (y + radius)
      in precalc ! nat (r + b * width) + precalc ! nat (l + t * width)
         - precalc ! nat (l + b * width) - precalc ! nat (r + t * width))"

definition blur_value :: "fp \<Rightarrow> int \<Rightarrow> int \<Rightarrow> int \<Rightarrow> 32 word list \<Rightarrow> int \<Rightarrow> int \<Rightarrow> error + 8 word" where
  "blur_value mul radius width height precalc x y =
     to_uchar (double_mul (sint (tot_at radius width height precalc x y)) mul)"

text \<open>
  What the inner loop of the blur step, started at column \<open>x\<close> of row \<open>y\<close>, has done
  to the buffer when it finishes: it has rewritten the bytes of the channel in the
  columns from \<open>x\<close> up to \<open>width - radius\<close> of that row, and nothing else.
\<close>

definition row_post ::
  "fp \<Rightarrow> int \<Rightarrow> int \<Rightarrow> int \<Rightarrow> 32 word list \<Rightarrow> int \<Rightarrow> int \<Rightarrow> int
     \<Rightarrow> 8 word list \<Rightarrow> 8 word list \<Rightarrow> bool" where
  "row_post mul radius width height precalc channel y x src src' \<longleftrightarrow>
     length src' = length src \<and>
     (\<forall>x' y' c'. 0 \<le> x' \<and> x' < width \<and> 0 \<le> y' \<and> 0 \<le> c' \<and> c' < 4 \<longrightarrow>
        (if c' = channel \<and> y' = y \<and> x \<le> x' \<and> x' < width - radius
         then blur_value mul radius width height precalc x' y'
                = Inr (src' ! nat (offset width c' x' y'))
         else src' ! nat (offset width c' x' y') = src ! nat (offset width c' x' y')))"

text \<open>The same for the outer loop, started at row \<open>y\<close>.\<close>

definition rows_post ::
  "fp \<Rightarrow> int \<Rightarrow> int \<Rightarrow> int \<Rightarrow> 32 word list \<Rightarrow> int \<Rightarrow> int
     \<Rightarrow> 8 word list \<Rightarrow> 8 word list \<Rightarrow> bool" where
  "rows_post mul radius width height precalc channel y src src' \<longleftrightarrow>
     length src' = length src \<and>
     (\<forall>x' y' c'. 0 \<le> x' \<and> x' < width \<and> 0 \<le> y' \<and> 0 \<le> c' \<and> c' < 4 \<longrightarrow>
        (if c' = channel \<and> y \<le> y' \<and> inset radius width height x' y'
         then blur_value mul radius width height precalc x' y'
                = Inr (src' ! nat (offset width c' x' y'))
         else src' ! nat (offset width c' x' y') = src ! nat (offset width c' x' y')))"

text \<open>
  What one pass over a channel does to the buffer: inside the inset rectangle the bytes
  of the channel are the converted windowed sums over the prefix sums of the buffer the
  pass started from; every other byte is as before.
\<close>

definition pass_post ::
  "fp \<Rightarrow> int \<Rightarrow> int \<Rightarrow> int \<Rightarrow> int \<Rightarrow> 8 word list \<Rightarrow> 8 word list \<Rightarrow> bool" where
  "pass_post mul radius width height channel src src' \<longleftrightarrow>
     length src' = length src \<and>
     (\<forall>x y c. 0 \<le> x \<and> x < width \<and> 0 \<le> y \<and> y < height \<and> 0 \<le> c \<and> c < 4 \<longrightarrow>
        (if c = channel \<and> inset radius width height x y
         then blur_value mul radius width height (ptable width height channel src) x y
                = Inr (src' ! nat (offset width c x y))
         else src' ! nat (offset width c x y) = src ! nat (offset width c x y)))"

text \<open>The corners of the window, as the claims write them.\<close>

definition corner_l :: "int \<Rightarrow> int \<Rightarrow> int" where "corner_l radius x = max 0 (x - radius)"

definition corner_t :: "int \<Rightarrow> int \<Rightarrow> int" where "corner_t radius y = max 0 (y - radius)"

definition corner_r :: "int \<Rightarrow> int \<Rightarrow> int \<Rightarrow> int" where
  "corner_r radius width x = min (width - 1) (x + radius)"

definition corner_b :: "int \<Rightarrow> int \<Rightarrow> int \<Rightarrow> int" where
  "corner_b radius height y = min (height - 1) (y + radius)"

text \<open>
  \<open>T = S[r,b] + S[l,t] - S[l,b] - S[r,t]\<close> over the integers, \<open>S\<close> the prefix sum of
  the bytes of the channel.
\<close>

definition window_T :: "int \<Rightarrow> int \<Rightarrow> int \<Rightarrow> int \<Rightarrow> 8 word list \<Rightarrow> int \<Rightarrow> int \<Rightarrow> int" where
  "window_T radius width height channel src x y =
     (let S = psum (chan width channel src);
          l = corner_l radius x; t = corner_t radius y;
          r = corner_r radius width x; b = corner_b radius height y
      in S r b + S l t - S l b - S r t)"




text \<open>Every pixel of the image holds \<open>v\<close> in the channel.\<close>

definition uniform :: "int \<Rightarrow> int \<Rightarrow> int \<Rightarrow> 8 word \<Rightarrow> 8 word list \<Rightarrow> bool" where
  "uniform width height channel v src \<longleftrightarrow>
     (\<forall>x y. 0 \<le> x \<and> x < width \<and> 0 \<le> y \<and> y < height \<longrightarrow>
        src ! nat (offset width channel x y) = v)"

text \<open>The value of a finite floating-point number.\<close>

definition fpval :: "int \<Rightarrow> int \<Rightarrow> real" where
  "fpval m e = real_of_int m * 2 powr real_of_int e"
section \<open>Sums over rectangles\<close>

lemma sum_int_last:
  "(a::int) \<le> b \<Longrightarrow> (\<Sum>i = a..b. g i) = (\<Sum>i = a..b - 1. g i) + (g b :: int)"
proof -
  assume "a \<le> b"
  then have "{a..b} = insert b {a..b - 1}" by auto
  then show ?thesis by (simp add: add.commute)
qed

lemma sum_int_split:
  assumes "(a::int) \<le> m + 1" "m \<le> b"
  shows "(\<Sum>i = a..b. g i) = (\<Sum>i = a..m. g i) + (\<Sum>i = m + 1..b. (g i :: int))"
proof -
  have "{a..b} = {a..m} \<union> {m + 1..b}" using assms by auto
  moreover have "{a..m} \<inter> {m + 1..b} = {}" by auto
  ultimately show ?thesis by (simp add: sum.union_disjoint)
qed

lemma psum_rec:
  assumes "0 \<le> x" "0 \<le> y"
  shows "psum f x y = f x y + psum f (x - 1) y + psum f x (y - 1) - psum f (x - 1) (y - 1)"
proof -
  have a: "psum f x y = psum f x (y - 1) + (\<Sum>i = 0..x. f i y)"
    unfolding psum_def using assms by (simp add: sum_int_last)
  have b: "psum f (x - 1) y = psum f (x - 1) (y - 1) + (\<Sum>i = 0..x - 1. f i y)"
    unfolding psum_def using assms by (simp add: sum_int_last)
  have c: "(\<Sum>i = 0..x. f i y) = (\<Sum>i = 0..x - 1. f i y) + f x y"
    using assms by (simp add: sum_int_last)
  show ?thesis using a b c by simp
qed

lemma psum_neg_x: "x < 0 \<Longrightarrow> psum f x y = 0"
  by (simp add: psum_def)

lemma psum_neg_y: "y < 0 \<Longrightarrow> psum f x y = 0"
  by (simp add: psum_def)

lemma psum_window:
  assumes "- 1 \<le> l" "l \<le> r" "- 1 \<le> t" "t \<le> b"
  shows "psum f r b + psum f l t - psum f l b - psum f r t = wsum f l r t b"
proof -
  have row: "(\<Sum>i = 0..r. f i j) = (\<Sum>i = 0..l. f i j) + (\<Sum>i = l + 1..r. f i j)" for j
    using assms by (intro sum_int_split) auto
  have rb: "psum f r b = psum f l b + (\<Sum>j = 0..b. \<Sum>i = l + 1..r. f i j)"
    unfolding psum_def by (simp add: row sum.distrib)
  have rt: "psum f r t = psum f l t + (\<Sum>j = 0..t. \<Sum>i = l + 1..r. f i j)"
    unfolding psum_def by (simp add: row sum.distrib)
  have col: "(\<Sum>j = 0..b. \<Sum>i = l + 1..r. f i j)
      = (\<Sum>j = 0..t. \<Sum>i = l + 1..r. f i j) + (\<Sum>j = t + 1..b. \<Sum>i = l + 1..r. f i j)"
    using assms by (intro sum_int_split) auto
  show ?thesis using rb rt col by (simp add: wsum_def)
qed

section \<open>Pixel offsets\<close>

lemma divmod_cell:
  assumes "0 \<le> x" "x < (w::int)"
  shows "(y * w + x) div w = y" "(y * w + x) mod w = x"
  using assms by (simp_all add: div_pos_pos_trivial)

lemma cell_bound:
  assumes "0 \<le> x" "x < (w::int)" "0 \<le> y" "y < h"
  shows "0 \<le> y * w + x" "y * w + x < w * h"
proof -
  have "0 \<le> y * w" using assms by simp
  then show "0 \<le> y * w + x" using assms by simp
  have "(y + 1) * w \<le> h * w" using assms by (intro mult_right_mono) auto
  then show "y * w + x < w * h" using assms by (simp add: algebra_simps)
qed

section \<open>The precomputation step computes the prefix sums\<close>

lemma rd_in: "0 \<le> i \<Longrightarrow> i < int (length xs) \<Longrightarrow> rd xs i = Inr (xs ! nat i)"
  by (simp add: rd_def)

lemma wr_in: "0 \<le> i \<Longrightarrow> i < int (length xs) \<Longrightarrow> wr xs i v = Inr (xs[nat i := v])"
  by (simp add: wr_def)

lemma bnd_Inr [simp]: "bnd (Inr v) f = f v"
  by (simp add: bnd_def)

lemma bnd_Inl [simp]: "bnd (Inl e) f = Inl e"
  by (simp add: bnd_def)

lemma prefix_cell_ok:
  assumes w: "0 < width" and x: "0 \<le> x" "x < width" and y: "0 \<le> y" "y < height"
    and c: "0 \<le> channel" "channel < 4"
    and pre: "pre = y * width + x" and pix: "pix = 4 * pre + channel"
    and ls: "int (length src) = 4 * width * height"
    and lp: "int (length precalc) = width * height"
    and inv: "\<forall>k. 0 \<le> k \<and> k < pre \<longrightarrow> precalc ! nat k = pval width channel src k"
  shows "prefix_cell width src x y pix pre precalc
           = Inr (precalc[nat pre := pval width channel src pre])"
proof -
  let ?S = "psum (chan width channel src)"
  have b: "0 \<le> pre" "pre < width * height"
    using cell_bound[OF x y] pre by auto
  have r0: "rd src pix = Inr (src ! nat pix)"
    using b c pix ls by (intro rd_in) auto
  have left: "(if x > 0 then rd precalc (pre - 1) else Inr 0)
                = Inr (word_of_int (?S (x - 1) y))"
  proof (cases "x > 0")
    case True
    have e: "pre - 1 = y * width + (x - 1)" using pre by simp
    have "pval width channel src (pre - 1) = word_of_int (?S (x - 1) y)"
      unfolding e using divmod_cell[of "x - 1" width y] True x by (simp add: pval_def)
    moreover have "0 \<le> pre - 1" unfolding e
      using cell_bound(1)[of "x - 1" width y height] True x y by simp
    ultimately show ?thesis using True inv b lp by (simp add: rd_in)
  next
    case False
    then show ?thesis by (simp add: psum_neg_x)
  qed
  have above: "(if y > 0 then rd precalc (pre - width) else Inr 0)
                = Inr (word_of_int (?S x (y - 1)))"
  proof (cases "y > 0")
    case True
    have e: "pre - width = (y - 1) * width + x" using pre by (simp add: algebra_simps)
    have "pval width channel src (pre - width) = word_of_int (?S x (y - 1))"
      unfolding e using divmod_cell[of x width "y - 1"] x by (simp add: pval_def)
    moreover have "0 \<le> pre - width" unfolding e
      using cell_bound(1)[of x width "y - 1" height] True x y by simp
    ultimately show ?thesis using True inv b lp w by (simp add: rd_in)
  next
    case False
    then show ?thesis by (simp add: psum_neg_y)
  qed
  have diag: "(if x > 0 \<and> y > 0 then rd precalc (pre - width - 1) else Inr 0)
                = Inr (word_of_int (?S (x - 1) (y - 1)))"
  proof (cases "x > 0 \<and> y > 0")
    case True
    have e: "pre - width - 1 = (y - 1) * width + (x - 1)" using pre by (simp add: algebra_simps)
    have "pval width channel src (pre - width - 1) = word_of_int (?S (x - 1) (y - 1))"
      unfolding e using divmod_cell[of "x - 1" width "y - 1"] x True by (simp add: pval_def)
    moreover have "0 \<le> pre - width - 1" unfolding e
      using cell_bound(1)[of "x - 1" width "y - 1" height] True x y by simp
    ultimately show ?thesis using True inv b lp w by (simp add: rd_in)
  next
    case False
    then have "x \<le> 0 \<or> y \<le> 0" by auto
    then have "?S (x - 1) (y - 1) = 0" by (auto simp: psum_neg_x psum_neg_y)
    then show ?thesis using False by auto
  qed
  have v: "pval width channel src pre
      = ucast (src ! nat pix) + word_of_int (?S (x - 1) y) + word_of_int (?S x (y - 1))
          - word_of_int (?S (x - 1) (y - 1))"
  proof -
    have "pval width channel src pre = word_of_int (?S x y)"
      using divmod_cell[of x width y] x pre by (simp add: pval_def)
    also have "?S x y = chan width channel src x y + ?S (x - 1) y + ?S x (y - 1) - ?S (x - 1) (y - 1)"
      using psum_rec[of x y] x y by simp
    also have "chan width channel src x y = uint (src ! nat pix)"
      using pix pre by (simp add: chan_def offset_def)
    finally show ?thesis by (simp only: ucast_eq wi_hom_add wi_hom_sub)
  qed
  have "prefix_cell width src x y pix pre precalc
      = wr precalc pre (ucast (src ! nat pix) + word_of_int (?S (x - 1) y)
          + word_of_int (?S x (y - 1)) - word_of_int (?S (x - 1) (y - 1)))"
    unfolding prefix_cell_def r0 left above diag by simp
  also have "\<dots> = Inr (precalc[nat pre := pval width channel src pre])"
    using b lp by (simp add: wr_in v)
  finally show ?thesis .
qed

lemma prefix_x_ok:
  assumes w: "0 < width" and y: "0 \<le> y" "y < height"
    and c: "0 \<le> channel" "channel < 4"
    and ls: "int (length src) = 4 * width * height"
  shows "0 \<le> x \<Longrightarrow> x \<le> width \<Longrightarrow> pre = y * width + x \<Longrightarrow> pix = 4 * pre + channel
    \<Longrightarrow> int (length precalc) = width * height
    \<Longrightarrow> \<forall>k. 0 \<le> k \<and> k < pre \<longrightarrow> precalc ! nat k = pval width channel src k
    \<Longrightarrow> \<exists>precalc'. prefix_x width src y x pix pre precalc
            = Inr (4 * (y * width + width) + channel, y * width + width, precalc')
          \<and> length precalc' = length precalc
          \<and> (\<forall>k. 0 \<le> k \<and> k < y * width + width \<longrightarrow> precalc' ! nat k = pval width channel src k)"
proof (induction "nat (width - x)" arbitrary: x pix pre precalc)
  case 0
  then have "x = width" by simp
  then show ?case using 0 by (subst prefix_x.simps) simp
next
  case (Suc n)
  then have x: "0 \<le> x" "x < width" by auto
  let ?p = "precalc[nat pre := pval width channel src pre]"
  have b: "0 \<le> pre" "pre < width * height"
    using cell_bound[OF x y] Suc.prems by auto
  have step: "prefix_cell width src x y pix pre precalc = Inr ?p"
    using Suc.prems by (intro prefix_cell_ok[OF w x y c _ _ ls]) auto
  have inv': "\<forall>k. 0 \<le> k \<and> k < pre + 1 \<longrightarrow> ?p ! nat k = pval width channel src k"
  proof (intro allI impI)
    fix k assume k: "0 \<le> k \<and> k < pre + 1"
    show "?p ! nat k = pval width channel src k"
    proof (cases "k = pre")
      case True
      then show ?thesis using b Suc.prems(5) by simp
    next
      case False
      then have "nat k \<noteq> nat pre" "k < pre" using k b by auto
      then show ?thesis using Suc.prems(6) k by simp
    qed
  qed
  have "\<exists>precalc'. prefix_x width src y (x + 1) (pix + 4) (pre + 1) ?p
            = Inr (4 * (y * width + width) + channel, y * width + width, precalc')
          \<and> length precalc' = length ?p
          \<and> (\<forall>k. 0 \<le> k \<and> k < y * width + width \<longrightarrow> precalc' ! nat k = pval width channel src k)"
    using Suc.hyps(2) x Suc.prems inv'
    by (intro Suc.hyps(1)) auto
  moreover have "prefix_x width src y x pix pre precalc
      = prefix_x width src y (x + 1) (pix + 4) (pre + 1) ?p"
    using x step by (subst prefix_x.simps) simp
  ultimately show ?case by simp
qed

lemma prefix_y_ok:
  assumes w: "0 < width"
    and c: "0 \<le> channel" "channel < 4"
    and ls: "int (length src) = 4 * width * height"
  shows "0 \<le> y \<Longrightarrow> y \<le> height \<Longrightarrow> pre = y * width \<Longrightarrow> pix = 4 * pre + channel
    \<Longrightarrow> int (length precalc) = width * height
    \<Longrightarrow> \<forall>k. 0 \<le> k \<and> k < pre \<longrightarrow> precalc ! nat k = pval width channel src k
    \<Longrightarrow> \<exists>precalc'. prefix_y width height src y pix pre precalc = Inr precalc'
          \<and> length precalc' = length precalc
          \<and> (\<forall>k. 0 \<le> k \<and> k < width * height \<longrightarrow> precalc' ! nat k = pval width channel src k)"
proof (induction "nat (height - y)" arbitrary: y pix pre precalc)
  case 0
  then have "y = height" by simp
  then show ?case using 0 by (subst prefix_y.simps) (simp add: mult.commute)
next
  case (Suc n)
  then have y: "0 \<le> y" "y < height" by auto
  have "\<exists>p. prefix_x width src y 0 pix pre precalc
            = Inr (4 * (y * width + width) + channel, y * width + width, p)
          \<and> length p = length precalc
          \<and> (\<forall>k. 0 \<le> k \<and> k < y * width + width \<longrightarrow> p ! nat k = pval width channel src k)"
    using Suc.prems w by (intro prefix_x_ok[OF w y c ls]) auto
  then obtain p where p: "prefix_x width src y 0 pix pre precalc
            = Inr (4 * (y * width + width) + channel, y * width + width, p)"
      "length p = length precalc"
      "\<forall>k. 0 \<le> k \<and> k < y * width + width \<longrightarrow> p ! nat k = pval width channel src k"
    by blast
  have "\<exists>precalc'. prefix_y width height src (y + 1) (4 * (y * width + width) + channel)
              (y * width + width) p = Inr precalc'
          \<and> length precalc' = length p
          \<and> (\<forall>k. 0 \<le> k \<and> k < width * height \<longrightarrow> precalc' ! nat k = pval width channel src k)"
    using Suc.hyps(2) y Suc.prems p
    by (intro Suc.hyps(1)) (auto simp: algebra_simps)
  moreover have "prefix_y width height src y pix pre precalc
      = prefix_y width height src (y + 1) (4 * (y * width + width) + channel) (y * width + width) p"
    using y p(1) by (subst prefix_y.simps) simp
  ultimately show ?case using p(2) by simp
qed

lemma prefix_pass:
  assumes "wf_buffers width height src precalc" "0 \<le> channel" "channel < 4"
  shows "prefix_y width height src 0 channel 0 precalc = Inr (ptable width height channel src)"
proof -
  have w: "0 < width" "0 < height" and ls: "int (length src) = 4 * width * height"
    and lp: "int (length precalc) = width * height"
    using assms(1) by (auto simp: wf_buffers_def)
  have "\<exists>p. prefix_y width height src 0 channel 0 precalc = Inr p
          \<and> length p = length precalc
          \<and> (\<forall>k. 0 \<le> k \<and> k < width * height \<longrightarrow> p ! nat k = pval width channel src k)"
    using w lp by (intro prefix_y_ok[OF w(1) assms(2,3) ls]) auto
  then obtain p where p: "prefix_y width height src 0 channel 0 precalc = Inr p"
      "length p = length precalc"
      "\<forall>k. 0 \<le> k \<and> k < width * height \<longrightarrow> p ! nat k = pval width channel src k"
    by blast
  have "p = ptable width height channel src"
  proof (rule nth_equalityI)
    show "length p = length (ptable width height channel src)"
      using p(2) lp by (simp add: ptable_def)
    fix i assume "i < length p"
    then have i: "int i < width * height" "i < nat (width * height)" using p(2) lp by auto
    then show "p ! i = ptable width height channel src ! i"
      using p(3)[rule_format, of "int i"] by (simp add: ptable_def)
  qed
  then show ?thesis using p(1) by simp
qed

section \<open>The blur step rewrites the inset rectangle\<close>

lemma offset_bound:
  assumes "0 \<le> x" "x < width" "0 \<le> y" "y < height" "0 \<le> channel" "channel < 4"
  shows "0 \<le> offset width channel x y" "offset width channel x y < 4 * width * height"
  using cell_bound[OF assms(1-4)] assms(5,6) by (auto simp: offset_def)

lemma offset_inj:
  assumes "0 \<le> x" "x < width" "0 \<le> x'" "x' < width"
    and "0 \<le> channel" "channel < 4" "0 \<le> channel'" "channel' < 4"
    and "offset width channel x y = offset width channel' x' y'"
  shows "x = x' \<and> y = y' \<and> channel = channel'"
proof -
  define A B where "A = y * width + x" and "B = y' * width + x'"
  have "4 * A + channel = 4 * B + channel'"
    using assms(9) by (simp add: offset_def A_def B_def)
  then have "A = B \<and> channel = channel'" using assms(5-8) by arith
  then have "y * width + x = y' * width + x'" "channel = channel'"
    by (auto simp: A_def B_def)
  then show ?thesis
    using divmod_cell[OF assms(1,2), of y] divmod_cell[OF assms(3,4), of y'] by simp
qed

lemma blur_cell_ok:
  assumes r: "0 \<le> radius" and x: "0 \<le> x" "x < width" and y: "0 \<le> y" "y < height"
    and c: "0 \<le> channel" "channel < 4"
    and pix: "pix = offset width channel x y"
    and ls: "int (length src) = 4 * width * height"
    and lp: "int (length precalc) = width * height"
  shows "blur_cell mul radius width height precalc x y pix src
           = bnd (blur_value mul radius width height precalc x y) (\<lambda>v. Inr (src[nat pix := v]))"
proof -
  define l t r b where "l = max 0 (x - radius)" and "t = max 0 (y - radius)"
    and "r = min (width - 1) (x + radius)" and "b = min (height - 1) (y + radius)"
  have lb: "0 \<le> l" "l < width" "0 \<le> r" "r < width" "0 \<le> t" "t < height" "0 \<le> b" "b < height"
    using r x y by (auto simp: l_def t_def r_def b_def)
  have code: "(if x < radius then 0 else x - radius) = l" "(if y < radius then 0 else y - radius) = t"
    "(if x + radius \<ge> width then width - 1 else x + radius) = r"
    "(if y + radius \<ge> height then height - 1 else y + radius) = b"
    by (auto simp: l_def t_def r_def b_def)
  have rd4: "rd precalc (r + b * width) = Inr (precalc ! nat (r + b * width))"
    "rd precalc (l + t * width) = Inr (precalc ! nat (l + t * width))"
    "rd precalc (l + b * width) = Inr (precalc ! nat (l + b * width))"
    "rd precalc (r + t * width) = Inr (precalc ! nat (r + t * width))"
    using cell_bound[of r width b height] cell_bound[of l width t height]
      cell_bound[of l width b height] cell_bound[of r width t height] lb lp
    by (simp_all add: rd_in add.commute)
  have "wr src pix v = Inr (src[nat pix := v])" for v
    using offset_bound[OF x y c] pix ls by (simp add: wr_in)
  then have wr1: "wr src pix = (\<lambda>v. Inr (src[nat pix := v]))" by (intro ext)
  have tot: "tot_at radius width height precalc x y
      = precalc ! nat (r + b * width) + precalc ! nat (l + t * width)
         - precalc ! nat (l + b * width) - precalc ! nat (r + t * width)"
    by (simp add: tot_at_def Let_def l_def t_def r_def b_def)
  show ?thesis
    unfolding blur_cell_def code Let_def rd4 blur_value_def tot by (simp add: wr1)
qed

lemma to_uchar_error: "to_uchar d = Inl e \<Longrightarrow> e = UndefinedConversion"
  by (cases d) (auto simp: Let_def split: if_splits)

lemma blur_value_error:
  "blur_value mul radius width height precalc x y = Inl e \<Longrightarrow> e = UndefinedConversion"
  unfolding blur_value_def by (rule to_uchar_error)

lemma blur_x_ok:
  assumes r: "0 \<le> radius" and y: "0 \<le> y" "y < height"
    and c: "0 \<le> channel" "channel < 4"
    and lp: "int (length precalc) = width * height"
  shows "0 \<le> x \<Longrightarrow> pix = offset width channel x y
    \<Longrightarrow> int (length src) = 4 * width * height
    \<Longrightarrow> blur_x mul radius width height precalc y x pix src \<noteq> Inl OutOfBounds
      \<and> ((\<forall>x'. x \<le> x' \<and> x' < width - radius \<longrightarrow>
             (\<exists>v. blur_value mul radius width height precalc x' y = Inr v))
           \<longrightarrow> (\<exists>res. blur_x mul radius width height precalc y x pix src = Inr res))
      \<and> (\<forall>pix' src'. blur_x mul radius width height precalc y x pix src = Inr (pix', src')
           \<longrightarrow> pix' = offset width channel (max x (width - radius)) y
             \<and> row_post mul radius width height precalc channel y x src src')"
proof (induction "nat (width - radius - x)" arbitrary: x pix src)
  case 0
  then have "\<not> x < width - radius" by simp
  then have "blur_x mul radius width height precalc y x pix src = Inr (pix, src)"
    by (subst blur_x.simps) simp
  moreover have "max x (width - radius) = x" using 0 by simp
  moreover have "row_post mul radius width height precalc channel y x src src"
    using 0 by (auto simp: row_post_def)
  ultimately show ?case using 0 by simp
next
  case (Suc n)
  then have x: "0 \<le> x" "x < width" "x < width - radius" using r by auto
  let ?bx = "blur_x mul radius width height precalc y"
  have cell: "blur_cell mul radius width height precalc x y pix src
      = bnd (blur_value mul radius width height precalc x y) (\<lambda>v. Inr (src[nat pix := v]))"
    using Suc.prems by (intro blur_cell_ok[OF r x(1,2) y c _ _ lp]) auto
  show ?case
  proof (cases "blur_value mul radius width height precalc x y")
    case (Inl e)
    then have "e = UndefinedConversion" by (rule blur_value_error)
    then have "?bx x pix src = Inl UndefinedConversion"
      using x cell Inl by (subst blur_x.simps) simp
    moreover have "\<not> (\<forall>x'. x \<le> x' \<and> x' < width - radius \<longrightarrow>
             (\<exists>v. blur_value mul radius width height precalc x' y = Inr v))"
      using Inl x by (auto intro!: exI[of _ x])
    ultimately show ?thesis by simp
  next
    case (Inr v)
    let ?s = "src[nat pix := v]"
    have unfold: "?bx x pix src = ?bx (x + 1) (pix + 4) ?s"
      using x cell Inr by (subst blur_x.simps) simp
    have pixb: "0 \<le> pix" "pix < 4 * width * height"
      using offset_bound[OF x(1,2) y c] Suc.prems by auto
    have ih: "?bx (x + 1) (pix + 4) ?s \<noteq> Inl OutOfBounds
      \<and> ((\<forall>x'. x + 1 \<le> x' \<and> x' < width - radius \<longrightarrow>
             (\<exists>v. blur_value mul radius width height precalc x' y = Inr v))
           \<longrightarrow> (\<exists>res. ?bx (x + 1) (pix + 4) ?s = Inr res))
      \<and> (\<forall>pix' src'. ?bx (x + 1) (pix + 4) ?s = Inr (pix', src')
           \<longrightarrow> pix' = offset width channel (max (x + 1) (width - radius)) y
             \<and> row_post mul radius width height precalc channel y (x + 1) ?s src')"
      using Suc.hyps(2) x Suc.prems
      by (intro Suc.hyps(1)) (auto simp: offset_def)
    have post: "row_post mul radius width height precalc channel y x src src'"
      if p: "row_post mul radius width height precalc channel y (x + 1) ?s src'" for src'
      unfolding row_post_def
    proof (intro conjI allI impI)
      show "length src' = length src" using p by (simp add: row_post_def)
    next
      fix x' y' c' :: int
      assume h: "0 \<le> x' \<and> x' < width \<and> 0 \<le> y' \<and> 0 \<le> c' \<and> c' < 4"
      let ?o = "offset width c' x' y'"
      have q: "if c' = channel \<and> y' = y \<and> x + 1 \<le> x' \<and> x' < width - radius
         then blur_value mul radius width height precalc x' y' = Inr (src' ! nat ?o)
         else src' ! nat ?o = ?s ! nat ?o"
        using p h unfolding row_post_def by blast
      have "0 \<le> y' * width" using h x by simp
      then have o0: "0 \<le> ?o"
        using h by (simp add: offset_def)
      show "if c' = channel \<and> y' = y \<and> x \<le> x' \<and> x' < width - radius
         then blur_value mul radius width height precalc x' y' = Inr (src' ! nat ?o)
         else src' ! nat ?o = src ! nat ?o"
      proof (cases "c' = channel \<and> y' = y \<and> x' = x")
        case True
        then have "?o = pix" using Suc.prems by simp
        then have "src' ! nat ?o = v" using q True pixb Suc.prems by simp
        then show ?thesis using True x Inr by simp
      next
        case False
        then have "?o \<noteq> pix"
          using offset_inj[of x' width x c' channel y' y] h x c Suc.prems by auto
        then have "nat ?o \<noteq> nat pix" using o0 pixb by simp
        then have "?s ! nat ?o = src ! nat ?o" by simp
        then show ?thesis using q False by (auto split: if_splits)
      qed
    qed
    show ?thesis unfolding unfold using ih x post by (auto simp: max_def)
  qed
qed

lemma blur_y_empty:
  assumes "\<not> radius < width - radius"
  shows "blur_y mul radius width height precalc y pix src = Inr src"
proof (induction "nat (height - radius - y)" arbitrary: y pix)
  case 0
  then show ?case by (subst blur_y.simps) simp
next
  case (Suc n)
  have "blur_x mul radius width height precalc y radius pix src = Inr (pix, src)"
    using assms by (subst blur_x.simps) simp
  moreover have "blur_y mul radius width height precalc (y + 1) (pix + radius * 2 * 4) src = Inr src"
    using Suc.hyps(2) by (intro Suc.hyps(1)) auto
  ultimately show ?case by (subst blur_y.simps) simp
qed

lemma error_cases: "e \<noteq> OutOfBounds \<Longrightarrow> e = UndefinedConversion"
  by (cases e) auto

lemma blur_y_ok:
  assumes r: "0 \<le> radius" and c: "0 \<le> channel" "channel < 4"
    and lp: "int (length precalc) = width * height"
    and cols: "radius < width - radius"
  shows "radius \<le> y \<Longrightarrow> pix = offset width channel radius y
    \<Longrightarrow> int (length src) = 4 * width * height
    \<Longrightarrow> blur_y mul radius width height precalc y pix src \<noteq> Inl OutOfBounds
      \<and> ((\<forall>x' y'. y \<le> y' \<and> inset radius width height x' y' \<longrightarrow>
             (\<exists>v. blur_value mul radius width height precalc x' y' = Inr v))
           \<longrightarrow> (\<exists>src'. blur_y mul radius width height precalc y pix src = Inr src'))
      \<and> (\<forall>src'. blur_y mul radius width height precalc y pix src = Inr src'
           \<longrightarrow> rows_post mul radius width height precalc channel y src src')"
proof (induction "nat (height - radius - y)" arbitrary: y pix src)
  case 0
  then have "\<not> y < height - radius" by simp
  then have "blur_y mul radius width height precalc y pix src = Inr src"
    by (subst blur_y.simps) simp
  moreover have "rows_post mul radius width height precalc channel y src src"
    using 0 by (auto simp: rows_post_def inset_def)
  ultimately show ?case by simp
next
  case (Suc n)
  then have y: "0 \<le> y" "y < height" "y < height - radius" using r by auto
  let ?by = "blur_y mul radius width height precalc"
  let ?bx = "blur_x mul radius width height precalc y radius pix src"
  let ?bv = "blur_value mul radius width height precalc"
  have row: "?bx \<noteq> Inl OutOfBounds
      \<and> ((\<forall>x'. radius \<le> x' \<and> x' < width - radius \<longrightarrow> (\<exists>v. ?bv x' y = Inr v))
           \<longrightarrow> (\<exists>res. ?bx = Inr res))
      \<and> (\<forall>pix' src'. ?bx = Inr (pix', src')
           \<longrightarrow> pix' = offset width channel (max radius (width - radius)) y
             \<and> row_post mul radius width height precalc channel y radius src src')"
    using Suc.prems r by (intro blur_x_ok[OF r y(1,2) c lp]) auto
  show ?case
  proof (cases ?bx)
    case (Inl e)
    then have "e = UndefinedConversion" using row by (auto intro: error_cases)
    then have "?by y pix src = Inl UndefinedConversion"
      using y Inl by (subst blur_y.simps) simp
    moreover have "\<not> (\<forall>x' y'. y \<le> y' \<and> inset radius width height x' y' \<longrightarrow>
             (\<exists>v. ?bv x' y' = Inr v))"
    proof
      assume a: "\<forall>x' y'. y \<le> y' \<and> inset radius width height x' y' \<longrightarrow> (\<exists>v. ?bv x' y' = Inr v)"
      have "\<forall>x'. radius \<le> x' \<and> x' < width - radius \<longrightarrow> (\<exists>v. ?bv x' y = Inr v)"
      proof (intro allI impI)
        fix x' assume "radius \<le> x' \<and> x' < width - radius"
        then have "inset radius width height x' y" using y Suc.prems r
          by (simp add: inset_def)
        then show "\<exists>v. ?bv x' y = Inr v" using a by blast
      qed
      then show False using row Inl by auto
    qed
    ultimately show ?thesis by simp
  next
    case (Inr res)
    obtain pix' s1 where res: "res = (pix', s1)" by (cases res)
    have pix': "pix' = offset width channel (width - radius) y"
      and rp: "row_post mul radius width height precalc channel y radius src s1"
      using row Inr res cols by (auto simp: max_def)
    have unfold: "?by y pix src = ?by (y + 1) (pix' + radius * 2 * 4) s1"
      using y Inr res by (subst blur_y.simps) simp
    have l1: "length s1 = length src" using rp by (simp add: row_post_def)
    have ih: "?by (y + 1) (pix' + radius * 2 * 4) s1 \<noteq> Inl OutOfBounds
      \<and> ((\<forall>x' y'. y + 1 \<le> y' \<and> inset radius width height x' y' \<longrightarrow> (\<exists>v. ?bv x' y' = Inr v))
           \<longrightarrow> (\<exists>src'. ?by (y + 1) (pix' + radius * 2 * 4) s1 = Inr src'))
      \<and> (\<forall>src'. ?by (y + 1) (pix' + radius * 2 * 4) s1 = Inr src'
           \<longrightarrow> rows_post mul radius width height precalc channel (y + 1) s1 src')"
      using Suc.hyps(2) y Suc.prems l1
      by (intro Suc.hyps(1)) (auto simp: offset_def pix' algebra_simps)
    have post: "rows_post mul radius width height precalc channel y src src'"
      if p: "rows_post mul radius width height precalc channel (y + 1) s1 src'" for src'
      unfolding rows_post_def
    proof (intro conjI allI impI)
      show "length src' = length src" using p l1 by (simp add: rows_post_def)
    next
      fix x' y' c' :: int
      assume h: "0 \<le> x' \<and> x' < width \<and> 0 \<le> y' \<and> 0 \<le> c' \<and> c' < 4"
      let ?o = "offset width c' x' y'"
      have q: "if c' = channel \<and> y + 1 \<le> y' \<and> inset radius width height x' y'
         then ?bv x' y' = Inr (src' ! nat ?o) else src' ! nat ?o = s1 ! nat ?o"
        using p h unfolding rows_post_def by blast
      have q1: "if c' = channel \<and> y' = y \<and> radius \<le> x' \<and> x' < width - radius
         then ?bv x' y' = Inr (s1 ! nat ?o) else s1 ! nat ?o = src ! nat ?o"
        using rp h unfolding row_post_def by blast
      show "if c' = channel \<and> y \<le> y' \<and> inset radius width height x' y'
         then ?bv x' y' = Inr (src' ! nat ?o) else src' ! nat ?o = src ! nat ?o"
      proof (cases "y' = y")
        case True
        then show ?thesis using q q1 y Suc.prems r by (auto simp: inset_def split: if_splits)
      next
        case False
        then show ?thesis using q q1 by (auto simp: inset_def split: if_splits)
      qed
    qed
    show ?thesis unfolding unfold using ih post by auto
  qed
qed

section \<open>One pass over a channel\<close>

lemma length_ptable: "int (length (ptable width height channel src)) = max 0 (width * height)"
  by (simp add: ptable_def)

lemma blur_pass:
  assumes wfb: "wf_buffers width height src precalc" and r: "0 \<le> radius"
    and c: "0 \<le> channel" "channel < 4"
  shows "blur_y mul radius width height precalc radius
            (radius * width * 4 + radius * 4 + channel) src \<noteq> Inl OutOfBounds
      \<and> ((\<forall>x y. inset radius width height x y \<longrightarrow>
             (\<exists>v. blur_value mul radius width height precalc x y = Inr v))
           \<longrightarrow> (\<exists>src'. blur_y mul radius width height precalc radius
                   (radius * width * 4 + radius * 4 + channel) src = Inr src'))
      \<and> (\<forall>src'. blur_y mul radius width height precalc radius
                   (radius * width * 4 + radius * 4 + channel) src = Inr src'
           \<longrightarrow> rows_post mul radius width height precalc channel radius src src')"
proof (cases "radius < width - radius")
  case True
  have ls: "int (length src) = 4 * width * height"
    and lp: "int (length precalc) = width * height"
    using wfb by (auto simp: wf_buffers_def)
  have pix: "radius * width * 4 + radius * 4 + channel = offset width channel radius radius"
    by (simp add: offset_def algebra_simps)
  show ?thesis unfolding pix
    using blur_y_ok[OF r c lp True order_refl refl ls, of mul] by blast
next
  case False
  have "blur_y mul radius width height precalc radius
            (radius * width * 4 + radius * 4 + channel) src = Inr src"
    using False by (rule blur_y_empty)
  moreover have "rows_post mul radius width height precalc channel radius src src"
    using False by (auto simp: rows_post_def inset_def)
  ultimately show ?thesis by simp
qed

lemma channel_pass_ok:
  assumes wfb: "wf_buffers width height src precalc" and r: "0 \<le> radius"
    and c: "0 \<le> channel" "channel < 4"
  shows "channel_pass mul radius width height channel (src, precalc) \<noteq> Inl OutOfBounds
      \<and> ((\<forall>x y. inset radius width height x y \<longrightarrow>
             (\<exists>v. blur_value mul radius width height (ptable width height channel src) x y = Inr v))
           \<longrightarrow> (\<exists>st'. channel_pass mul radius width height channel (src, precalc) = Inr st'))
      \<and> (\<forall>src' precalc'. channel_pass mul radius width height channel (src, precalc)
                = Inr (src', precalc')
           \<longrightarrow> precalc' = ptable width height channel src
             \<and> wf_buffers width height src' precalc'
             \<and> pass_post mul radius width height channel src src')"
proof -
  let ?t = "ptable width height channel src"
  let ?b = "blur_y mul radius width height ?t radius (radius * width * 4 + radius * 4 + channel) src"
  have wft: "wf_buffers width height src ?t"
    using wfb by (simp add: wf_buffers_def length_ptable)
  have cp: "channel_pass mul radius width height channel (src, precalc)
      = bnd ?b (\<lambda>src'. Inr (src', ?t))"
    by (simp add: channel_pass_def prefix_pass[OF wfb c])
  have post: "wf_buffers width height src' ?t \<and> pass_post mul radius width height channel src src'"
    if "rows_post mul radius width height ?t channel radius src src'" for src'
    using that wft by (auto simp: rows_post_def pass_post_def wf_buffers_def inset_def)
  show ?thesis
    unfolding cp using blur_pass[OF wft r c, of mul] post
    by (cases ?b) auto
qed

lemma channel_pass_heap:
  assumes "wf_buffers width height src p1" "wf_buffers width height src p2" "0 \<le> channel" "channel < 4"
  shows "channel_pass mul radius width height channel (src, p1)
       = channel_pass mul radius width height channel (src, p2)"
  using assms by (simp add: channel_pass_def prefix_pass)

section \<open>The loops over channels and iterations\<close>

text \<open>
  A rule for the loops: a property \<open>I\<close> of the state that every pass over a channel
  keeps (with \<open>E\<close> for the errors a pass may end in) holds after the loop.
\<close>

lemma channel_loop_rule:
  assumes step: "\<And>c st. 0 \<le> c \<Longrightarrow> c < 4 \<Longrightarrow> I st
      \<Longrightarrow> case_sum E I (channel_pass mul radius width height c st)"
  shows "0 \<le> channel \<Longrightarrow> I st
      \<Longrightarrow> case_sum E I (channel_loop mul radius width height channel st)"
proof (induction "nat (4 - channel)" arbitrary: channel st)
  case 0
  then show ?case by (subst channel_loop.simps) simp
next
  case (Suc n)
  then have c: "0 \<le> channel" "channel < 4" by auto
  show ?case
  proof (cases "channel_pass mul radius width height channel st")
    case (Inl e)
    then show ?thesis using step[OF c Suc.prems(2)] c
      by (subst channel_loop.simps) simp
  next
    case (Inr st1)
    then have "I st1" using step[OF c Suc.prems(2)] by simp
    then have "case_sum E I (channel_loop mul radius width height (channel + 1) st1)"
      using Suc.hyps(2) c by (intro Suc.hyps(1)) auto
    then show ?thesis using Inr c by (subst channel_loop.simps) simp
  qed
qed

lemma iteration_loop_rule:
  assumes step: "\<And>c st. 0 \<le> c \<Longrightarrow> c < 4 \<Longrightarrow> I st
      \<Longrightarrow> case_sum E I (channel_pass mul radius width height c st)"
  shows "I st \<Longrightarrow> case_sum E I (iteration_loop mul radius width height iteration st)"
proof (induction "nat (MAX_ITERATIONS - iteration)" arbitrary: iteration st)
  case 0
  then show ?case by (subst iteration_loop.simps) simp
next
  case (Suc n)
  then have i: "iteration < MAX_ITERATIONS" by auto
  have l: "case_sum E I (channel_loop mul radius width height 0 st)"
    using Suc.prems by (intro channel_loop_rule[of I E, OF step]) auto
  show ?case
  proof (cases "channel_loop mul radius width height 0 st")
    case (Inl e)
    then show ?thesis using l i by (subst iteration_loop.simps) simp
  next
    case (Inr st1)
    then have "I st1" using l by simp
    then have "case_sum E I (iteration_loop mul radius width height (iteration + 1) st1)"
      using Suc.hyps(2) by (intro Suc.hyps(1)) auto
    then show ?thesis using Inr i by (subst iteration_loop.simps) simp
  qed
qed

lemma surface_blur_rule:
  assumes step: "\<And>c st. 0 \<le> c \<Longrightarrow> c < 4 \<Longrightarrow> I st
      \<Longrightarrow> case_sum E I (channel_pass (mul_of (radius0 - 1)) (radius0 - 1)
             (surf_width surf) (surf_height surf) c st)"
    and init: "I (surf_data surf, malloc_unsigned heap (surf_width surf * surf_height surf))"
  shows "case_sum E (\<lambda>src'. \<exists>precalc'. I (src', precalc')) (surface_blur heap surf radius0)"
proof -
  let ?l = "iteration_loop (mul_of (radius0 - 1)) (radius0 - 1) (surf_width surf)
      (surf_height surf) 0 (surf_data surf, malloc_unsigned heap (surf_width surf * surf_height surf))"
  have l: "case_sum E I ?l"
    using init by (intro iteration_loop_rule[of I E, OF step]) auto
  have "surface_blur heap surf radius0 = bnd ?l (\<lambda>(src', precalc'). Inr src')"
    by (simp add: surface_blur_def Let_def)
  then show ?thesis using l by (cases ?l) auto
qed

text \<open>The loops unrolled.\<close>

lemma channel_loop_unrolled:
  "channel_loop mul radius width height 0 st =
     bnd (channel_pass mul radius width height 0 st) (\<lambda>st1.
     bnd (channel_pass mul radius width height 1 st1) (\<lambda>st2.
     bnd (channel_pass mul radius width height 2 st2) (\<lambda>st3.
     channel_pass mul radius width height 3 st3)))"
proof -
  have 4: "channel_loop mul radius width height 4 s = Inr s" for s
    by (subst channel_loop.simps) simp
  have 3: "channel_loop mul radius width height 3 s = channel_pass mul radius width height 3 s" for s
    by (subst channel_loop.simps) (simp add: 4 bnd_def split: sum.splits)
  have 2: "channel_loop mul radius width height 2 s
      = bnd (channel_pass mul radius width height 2 s) (channel_pass mul radius width height 3)" for s
    by (subst channel_loop.simps) (simp add: 3 bnd_def split: sum.splits)
  have 1: "channel_loop mul radius width height 1 s
      = bnd (channel_pass mul radius width height 1 s) (\<lambda>s2.
        bnd (channel_pass mul radius width height 2 s2) (channel_pass mul radius width height 3))" for s
    by (subst channel_loop.simps) (simp add: 2 bnd_def split: sum.splits)
  show ?thesis
    by (subst channel_loop.simps) (simp add: 1 bnd_def split: sum.splits)
qed

lemma iteration_loop_unrolled:
  "iteration_loop mul radius width height 0 st =
     bnd (channel_loop mul radius width height 0 st) (\<lambda>st1.
     bnd (channel_loop mul radius width height 0 st1) (\<lambda>st2.
     channel_loop mul radius width height 0 st2))"
proof -
  have 3: "iteration_loop mul radius width height 3 s = Inr s" for s
    by (subst iteration_loop.simps) (simp add: MAX_ITERATIONS_def)
  have 2: "iteration_loop mul radius width height 2 s = channel_loop mul radius width height 0 s" for s
    by (subst iteration_loop.simps) (simp add: 3 MAX_ITERATIONS_def bnd_def split: sum.splits)
  have 1: "iteration_loop mul radius width height 1 s
      = bnd (channel_loop mul radius width height 0 s) (channel_loop mul radius width height 0)" for s
    by (subst iteration_loop.simps) (simp add: 2 MAX_ITERATIONS_def bnd_def split: sum.splits)
  show ?thesis
    by (subst iteration_loop.simps) (simp add: 1 MAX_ITERATIONS_def bnd_def split: sum.splits)
qed

section \<open>Windowed sums\<close>

lemma well_formed_wf:
  "well_formed surf \<Longrightarrow> wf_buffers (surf_width surf) (surf_height surf) (surf_data surf)
     (malloc_unsigned heap (surf_width surf * surf_height surf))"
  by (simp add: well_formed_def wf_buffers_def malloc_unsigned_def)

lemma ptable_nth:
  assumes "0 \<le> x" "x < width" "0 \<le> y" "y < height"
  shows "ptable width height channel src ! nat (x + y * width)
           = word_of_int (psum (chan width channel src) x y)"
proof -
  have b: "0 \<le> y * width + x" "y * width + x < width * height"
    using cell_bound[OF assms] by auto
  then have "nat (y * width + x) < nat (width * height)" by simp
  then have "ptable width height channel src ! nat (y * width + x)
      = pval width channel src (y * width + x)"
    using b by (simp add: ptable_def)
  then show ?thesis using divmod_cell[OF assms(1,2), of y] by (simp add: pval_def add.commute)
qed

lemma tot_at_ptable:
  assumes r: "0 \<le> radius" and x: "0 \<le> x" "x < width" and y: "0 \<le> y" "y < height"
  shows "tot_at radius width height (ptable width height channel src) x y
           = word_of_int (window_T radius width height channel src x y)"
proof -
  define l t r b where "l = max 0 (x - radius)" and "t = max 0 (y - radius)"
    and "r = min (width - 1) (x + radius)" and "b = min (height - 1) (y + radius)"
  have lb: "0 \<le> l" "l < width" "0 \<le> r" "r < width" "0 \<le> t" "t < height" "0 \<le> b" "b < height"
    using r x y by (auto simp: l_def t_def r_def b_def)
  let ?S = "psum (chan width channel src)"
  have "tot_at radius width height (ptable width height channel src) x y
      = word_of_int (?S r b) + word_of_int (?S l t) - word_of_int (?S l b) - word_of_int (?S r t)"
    unfolding tot_at_def Let_def l_def[symmetric] t_def[symmetric] r_def[symmetric] b_def[symmetric]
    using lb by (simp add: ptable_nth)
  also have "\<dots> = word_of_int (?S r b + ?S l t - ?S l b - ?S r t)"
    by (simp only: wi_hom_add wi_hom_sub)
  finally show ?thesis
    by (simp add: window_T_def Let_def corner_l_def corner_t_def corner_r_def corner_b_def
        l_def t_def r_def b_def)
qed

lemma inset_range:
  assumes "0 \<le> radius" "inset radius width height x y"
  shows "0 \<le> x" "x < width" "0 \<le> y" "y < height"
  using assms by (auto simp: inset_def)

lemma chan_nonneg: "0 \<le> chan width channel src x y"
  by (simp add: chan_def)

lemma chan_le: "chan width channel src x y \<le> 255"
proof -
  have "uint (src ! nat (offset width channel x y)) < 2 ^ 8"
    using uint_bounded[of "src ! nat (offset width channel x y)"] by simp
  then show ?thesis by (simp add: chan_def)
qed

lemma wsum_nonneg: "(\<And>i j. 0 \<le> f i j) \<Longrightarrow> 0 \<le> wsum f l r t b"
  by (simp add: wsum_def sum_nonneg)

text \<open>Inside the inset rectangle no corner is clamped and the window is full.\<close>

lemma inset_window_T:
  assumes r: "0 \<le> radius" and i: "inset radius width height x y"
  shows "corner_l radius x = x - radius" "corner_t radius y = y - radius"
    "corner_r radius width x = x + radius" "corner_b radius height y = y + radius"
    "window_T radius width height channel src x y
       = wsum (chan width channel src) (x - radius) (x + radius) (y - radius) (y + radius)"
proof -
  show c: "corner_l radius x = x - radius" "corner_t radius y = y - radius"
    "corner_r radius width x = x + radius" "corner_b radius height y = y + radius"
    using r i by (auto simp: inset_def corner_l_def corner_t_def corner_r_def corner_b_def)
  show "window_T radius width height channel src x y
       = wsum (chan width channel src) (x - radius) (x + radius) (y - radius) (y + radius)"
    unfolding window_T_def Let_def c
    using r i by (intro psum_window) (auto simp: inset_def)
qed

lemma int32_id: "- (2 ^ 31) \<le> i \<Longrightarrow> i < 2 ^ 31 \<Longrightarrow> int32 i = i"
proof -
  assume "- (2 ^ 31) \<le> i" "i < 2 ^ 31"
  then have "(i + 2 ^ 31) mod 2 ^ 32 = i + 2 ^ 31"
    by (intro mod_pos_pos_trivial) auto
  then show ?thesis by (simp add: int32_def int_word_sint)
qed

lemma pass_post_inset:
  assumes "pass_post mul radius width height channel src src'"
    and "0 \<le> radius" "0 \<le> channel" "channel < 4" "inset radius width height x y"
  shows "to_uchar (double_mul (int32 (window_T radius width height channel src x y)) mul)
           = Inr (src' ! nat (offset width channel x y))"
proof -
  have xy: "0 \<le> x" "x < width" "0 \<le> y" "y < height"
    using inset_range[OF assms(2,5)] by auto
  have "blur_value mul radius width height (ptable width height channel src) x y
      = Inr (src' ! nat (offset width channel x y))"
    using assms xy unfolding pass_post_def by auto
  then show ?thesis
    by (simp add: blur_value_def tot_at_ptable[OF assms(2) xy] int32_def)
qed

lemma pass_post_outside:
  assumes "pass_post mul radius width height channel src src'"
    and "0 \<le> x" "x < width" "0 \<le> y" "y < height" "0 \<le> c" "c < 4"
    and "c \<noteq> channel \<or> \<not> inset radius width height x y"
  shows "src' ! nat (offset width c x y) = src ! nat (offset width c x y)"
  using assms unfolding pass_post_def by auto

lemma channel_pass_empty:
  assumes "wf_buffers width height src precalc" "0 \<le> channel" "channel < 4"
    and "width - radius \<le> radius \<or> height - radius \<le> radius"
  shows "channel_pass mul radius width height channel (src, precalc)
           = Inr (src, ptable width height channel src)"
proof -
  have "blur_y mul radius width height p radius pix src = Inr src" for p pix
  proof (cases "radius < width - radius")
    case True
    then have "\<not> radius < height - radius" using assms(4) by auto
    then show ?thesis by (subst blur_y.simps) simp
  next
    case False
    then show ?thesis by (rule blur_y_empty)
  qed
  then show ?thesis
    by (simp add: channel_pass_def prefix_pass[OF assms(1-3)])
qed

lemma mul_of_zero: "mul_of 0 = PInf"
  by (simp add: mul_of_def int32_def float_of_int_def)

lemma channel_pass_radius_zero:
  assumes "wf_buffers width height src precalc" "0 \<le> channel" "channel < 4"
  shows "channel_pass (mul_of 0) 0 width height channel (src, precalc) = Inl UndefinedConversion"
proof (cases "channel_pass (mul_of 0) 0 width height channel (src, precalc)")
  case (Inl e)
  then show ?thesis
    using channel_pass_ok[OF assms(1) order_refl assms(2,3), of "mul_of 0"]
    by (auto intro: error_cases)
next
  case (Inr st')
  obtain s' p' where st': "st' = (s', p')" by (cases st')
  have wh: "0 < width" "0 < height" using assms(1) by (auto simp: wf_buffers_def)
  have "pass_post (mul_of 0) 0 width height channel src s'"
    using channel_pass_ok[OF assms(1) order_refl assms(2,3), of "mul_of 0"] Inr st' by simp
  moreover have "inset 0 width height 0 0" using wh by (simp add: inset_def)
  ultimately have "blur_value (mul_of 0) 0 width height (ptable width height channel src) 0 0
      = Inr (s' ! nat (offset width channel 0 0))"
    using wh assms(2,3) unfolding pass_post_def by auto
  moreover have "blur_value (mul_of 0) 0 width height (ptable width height channel src) 0 0
      = Inl UndefinedConversion"
    by (simp add: blur_value_def mul_of_zero)
  ultimately show ?thesis by simp
qed

lemma surface_blur_radius_one:
  assumes "well_formed surf"
  shows "surface_blur heap surf 1 = Inl UndefinedConversion"
  using channel_pass_radius_zero[OF well_formed_wf[OF assms, of heap], of 0]
  by (simp add: surface_blur_def Let_def iteration_loop_unrolled channel_loop_unrolled)

lemma wsum_const:
  assumes "\<And>i j. l < i \<Longrightarrow> i \<le> r \<Longrightarrow> t < j \<Longrightarrow> j \<le> b \<Longrightarrow> f i j = k"
    and "l \<le> r" "t \<le> b"
  shows "wsum f l r t b = k * (r - l) * (b - t)"
proof -
  have "(\<Sum>i = l + 1..r. f i j) = k * (r - l)" if "t < j" "j \<le> b" for j
  proof -
    have "(\<Sum>i = l + 1..r. f i j) = (\<Sum>i = l + 1..r. k)"
      using assms(1) that by (intro sum.cong) auto
    then show ?thesis using assms(2) by simp
  qed
  then have "wsum f l r t b = (\<Sum>j = t + 1..b. k * (r - l))"
    unfolding wsum_def by (intro sum.cong) auto
  then show ?thesis using assms(3) by simp
qed

lemma uniform_pass:
  assumes wfb: "wf_buffers width height src precalc" and r: "0 \<le> radius"
    and c': "0 \<le> c'" "c' < 4" and c: "0 \<le> c" "c < 4"
    and u: "uniform width height c v src"
    and conv: "to_uchar (double_mul (int32 (uint v * (2 * radius) ^ 2)) mul) = Inr v"
    and res: "channel_pass mul radius width height c' (src, precalc) = Inr (src', precalc')"
  shows "uniform width height c v src'"
  unfolding uniform_def
proof (intro allI impI)
  fix x y
  assume xy: "0 \<le> x \<and> x < width \<and> 0 \<le> y \<and> y < height"
  have pp: "pass_post mul radius width height c' src src'"
    using channel_pass_ok[OF wfb r c', of mul] res by simp
  show "src' ! nat (offset width c x y) = v"
  proof (cases "c = c' \<and> inset radius width height x y")
    case True
    then have i: "inset radius width height x y" by simp
    have "chan width c src i j = uint v"
      if "x - radius < i" "i \<le> x + radius" "y - radius < j" "j \<le> y + radius" for i j
      using that i r u by (auto simp: chan_def uniform_def inset_def)
    then have "wsum (chan width c src) (x - radius) (x + radius) (y - radius) (y + radius)
        = uint v * (x + radius - (x - radius)) * (y + radius - (y - radius))"
      using r by (intro wsum_const) auto
    also have "\<dots> = uint v * (2 * radius) ^ 2"
      by (simp add: power2_eq_square algebra_simps)
    finally have "window_T radius width height c src x y = uint v * (2 * radius) ^ 2"
      using inset_window_T(5)[OF r i, of c src] by simp
    then have "to_uchar (double_mul (int32 (uint v * (2 * radius) ^ 2)) mul)
        = Inr (src' ! nat (offset width c x y))"
      using pass_post_inset[OF _ r c i, of mul src src'] pp True by simp
    then show ?thesis using conv by simp
  next
    case False
    then have "src' ! nat (offset width c x y) = src ! nat (offset width c x y)"
      using xy c by (intro pass_post_outside[OF pp]) auto
    then show ?thesis using u xy by (simp add: uniform_def)
  qed
qed

lemma uniform_replicate:
  assumes "int n = 4 * width * height" "0 \<le> channel" "channel < 4"
  shows "uniform width height channel v (replicate n v)"
  unfolding uniform_def
proof (intro allI impI)
  fix x y
  assume "0 \<le> x \<and> x < width \<and> 0 \<le> y \<and> y < height"
  then have "0 \<le> offset width channel x y" "offset width channel x y < 4 * width * height"
    using assms offset_bound[of x width y height channel] by auto
  then have "nat (offset width channel x y) < n" using assms(1) by (simp add: nat_less_iff)
  then show "replicate n v ! nat (offset width channel x y) = v" by simp
qed

section \<open>Rounding and the conversion to a byte\<close>

lemma rne_bounds:
  assumes "0 < b"
  shows "\<bar>real_of_int (rne a b) - real_of_int a / real_of_int b\<bar> \<le> 1 / 2"
proof -
  define q r where "q = a div b" and "r = a mod b"
  have r: "0 \<le> r" "r < b" using assms by (simp_all add: r_def)
  have a: "a = b * q + r" by (simp add: q_def r_def)
  have ab: "real_of_int a / real_of_int b = real_of_int q + real_of_int r / real_of_int b"
    using assms by (simp add: a field_simps)
  have rb: "0 \<le> real_of_int r / real_of_int b" "real_of_int r / real_of_int b < 1"
    using r assms by simp_all
  consider "2 * r < b" | "2 * r > b" | "2 * r = b" by linarith
  then show ?thesis
  proof cases
    case 1
    then have "rne a b = q" by (simp add: rne_def q_def r_def Let_def)
    moreover have "real_of_int r / real_of_int b \<le> 1 / 2"
      using 1 assms by (simp add: field_simps)
    ultimately show ?thesis using ab rb by simp
  next
    case 2
    then have "rne a b = q + 1" by (simp add: rne_def q_def r_def Let_def)
    moreover have "real_of_int r / real_of_int b \<ge> 1 / 2"
      using 2 assms by (simp add: field_simps)
    ultimately show ?thesis using ab rb by simp
  next
    case 3
    then have "rne a b = q \<or> rne a b = q + 1" by (simp add: rne_def q_def r_def Let_def)
    moreover have "real_of_int r / real_of_int b = 1 / 2"
      using 3 assms by (simp add: field_simps)
    ultimately show ?thesis using ab by auto
  qed
qed

lemma scaled_val:
  assumes "0 < b" "scaled a b e = (n, d)"
  shows "0 < d" "real_of_int n / real_of_int d
           = real_of_int a / real_of_int b * 2 powr (- real_of_int e)"
proof -
  have n: "n = a * 2 ^ nat (- e)" and d: "d = b * 2 ^ nat e"
    using assms(2) by (simp_all add: scaled_def)
  show "0 < d" using assms(1) d by simp
  show "real_of_int n / real_of_int d
           = real_of_int a / real_of_int b * 2 powr (- real_of_int e)"
  proof (cases "0 \<le> e")
    case True
    then have "2 powr (- real_of_int e) = 1 / 2 ^ nat e"
      by (simp add: powr_minus powr_realpow[symmetric] divide_simps)
    then show ?thesis using True n d by simp
  next
    case False
    then have "2 powr (- real_of_int e) = 2 ^ nat (- e)"
      by (simp add: powr_realpow[symmetric])
    then show ?thesis using False n d by simp
  qed
qed


lemma bitlen_real:
  assumes "0 < a"
  shows "2 powr (real_of_int (bitlen a) - 1) \<le> real_of_int a"
    "real_of_int a < 2 powr real_of_int (bitlen a)"
proof -
  have l: "1 \<le> bitlen a" using assms bitlen_eq_zero_iff[of a] bitlen_nonneg[of a] by linarith
  have b: "2 ^ nat (bitlen a - 1) \<le> a" "a < 2 ^ nat (bitlen a)"
    using bitlen_bounds[OF assms] by auto
  have "2 powr (real_of_int (bitlen a) - 1) = 2 powr real (nat (bitlen a - 1))"
    using l by simp
  also have "\<dots> = 2 ^ nat (bitlen a - 1)" by (simp add: powr_realpow)
  also have "\<dots> \<le> real_of_int a" using b(1) by (metis of_int_le_iff of_int_numeral of_int_power)
  finally show "2 powr (real_of_int (bitlen a) - 1) \<le> real_of_int a" .
  have "real_of_int a < 2 ^ nat (bitlen a)"
    using b(2) by (metis of_int_less_iff of_int_numeral of_int_power)
  also have "\<dots> = 2 powr real (nat (bitlen a))" by (simp add: powr_realpow)
  also have "\<dots> = 2 powr real_of_int (bitlen a)" using l by simp
  finally show "real_of_int a < 2 powr real_of_int (bitlen a)" .
qed

lemma round_to_val:
  assumes a: "0 < a" and b: "0 < b" and p: "0 < p" and rt: "round_to p a b = (m, e)"
  shows "\<bar>fpval m e - real_of_int a / real_of_int b\<bar> \<le> real_of_int a / real_of_int b / 2 ^ p"
    and "0 < m"
proof -
  define x where "x = real_of_int a / real_of_int b"
  define e0 where "e0 = bitlen a - bitlen b - int p"
  obtain n0 d0 where s0: "scaled a b e0 = (n0, d0)" by (cases "scaled a b e0")
  define q0 where "q0 = x * 2 powr (- real_of_int e0)"
  have x0: "0 < x" using a b by (simp add: x_def)
  have d0: "0 < d0" and nd0: "real_of_int n0 / real_of_int d0 = q0"
    using scaled_val[OF b s0] by (simp_all add: q0_def x_def)
  have xu: "x < 2 powr (real_of_int (bitlen a) - real_of_int (bitlen b) + 1)"
  proof -
    have "x < 2 powr real_of_int (bitlen a) / 2 powr (real_of_int (bitlen b) - 1)"
      unfolding x_def using bitlen_real[OF a] bitlen_real[OF b] a b
      by (intro frac_less) auto
    then show ?thesis by (simp add: powr_diff[symmetric] algebra_simps)
  qed
  have xl: "2 powr (real_of_int (bitlen a) - real_of_int (bitlen b) - 1) < x"
  proof -
    have "2 powr (real_of_int (bitlen a) - 1) / 2 powr real_of_int (bitlen b) < x"
      unfolding x_def using bitlen_real[OF a] bitlen_real[OF b] a b
      by (intro frac_less2) auto
    then show ?thesis by (simp add: powr_diff[symmetric] algebra_simps)
  qed
  have q0u: "q0 < 2 powr (real p + 1)"
  proof -
    have "q0 < 2 powr (real_of_int (bitlen a) - real_of_int (bitlen b) + 1)
        * 2 powr (- real_of_int e0)"
      unfolding q0_def using xu by simp
    then show ?thesis by (simp add: powr_add[symmetric] e0_def add.commute)
  qed
  have q0l: "2 powr (real p - 1) < q0"
  proof -
    have "2 powr (real_of_int (bitlen a) - real_of_int (bitlen b) - 1)
        * 2 powr (- real_of_int e0) < q0"
      unfolding q0_def using xl by simp
    then show ?thesis by (simp add: powr_add[symmetric] e0_def)
  qed
  have cond: "(2 ^ p * d0 \<le> n0) \<longleftrightarrow> (2 powr real p \<le> q0)"
  proof -
    have "(2 powr real p \<le> q0) \<longleftrightarrow> (2 ^ p * real_of_int d0 \<le> real_of_int n0)"
      using d0 by (simp add: nd0[symmetric] powr_realpow field_simps)
    also have "\<dots> \<longleftrightarrow> (real_of_int (2 ^ p * d0) \<le> real_of_int n0)" by simp
    also have "\<dots> \<longleftrightarrow> (2 ^ p * d0 \<le> n0)" by (rule of_int_le_iff)
    finally show ?thesis by simp
  qed
  have e: "e = (if 2 powr real p \<le> q0 then e0 + 1 else e0)"
    using rt s0 cond by (auto simp: round_to_def Let_def e0_def split: prod.splits if_splits)
  obtain n d where s: "scaled a b e = (n, d)" by (cases "scaled a b e")
  define q where "q = x * 2 powr (- real_of_int e)"
  have d: "0 < d" and nd: "real_of_int n / real_of_int d = q"
    using scaled_val[OF b s] by (simp_all add: q_def x_def)
  have m: "m = rne n d"
    using rt s0 s cond e by (auto simp: round_to_def Let_def e0_def split: prod.splits if_splits)
  have ql: "2 powr (real p - 1) \<le> q"
  proof (cases "2 powr real p \<le> q0")
    case True
    then have "q = q0 / 2" using e by (simp add: q_def q0_def powr_diff powr_minus field_simps powr_add)
    moreover have "2 powr (real p - 1) = 2 powr real p / 2" by (simp add: powr_diff)
    ultimately show ?thesis using True by simp
  next
    case False
    then have "q = q0" using e by (simp add: q_def q0_def)
    then show ?thesis using q0l by simp
  qed
  have mq: "\<bar>real_of_int m - q\<bar> \<le> 1 / 2"
    using rne_bounds[OF d, of n] by (simp add: m nd)
  have xq: "x = q * 2 powr real_of_int e"
    by (simp add: q_def powr_minus field_simps)
  have "\<bar>fpval m e - x\<bar> = \<bar>real_of_int m - q\<bar> * 2 powr real_of_int e"
    by (simp add: fpval_def xq left_diff_distrib[symmetric] abs_mult)
  also have "\<dots> \<le> 1 / 2 * 2 powr real_of_int e"
    using mq by (intro mult_right_mono) auto
  also have "\<dots> \<le> q / 2 ^ p * 2 powr real_of_int e"
  proof -
    have "2 powr (real p - 1) = 2 ^ p / 2" by (simp add: powr_diff powr_realpow)
    then have "1 / 2 \<le> q / 2 ^ p" using ql by (simp add: field_simps)
    then show ?thesis by (intro mult_right_mono) auto
  qed
  also have "\<dots> = x / 2 ^ p" by (simp add: xq)
  finally show "\<bar>fpval m e - real_of_int a / real_of_int b\<bar>
      \<le> real_of_int a / real_of_int b / 2 ^ p"
    by (simp add: x_def)
  have "1 \<le> 2 powr (real p - 1)" using p powr_mono[of 0 "real p - 1" 2] by simp
  then have "1 / 2 \<le> real_of_int m" using mq ql by linarith
  then show "0 < m" by linarith
qed


lemma fpval_shift: "fpval m (e' + e) = fpval m e' * 2 powr real_of_int e"
  by (simp add: fpval_def powr_add)

lemma float_of_int_val:
  assumes "0 < n"
  shows "\<exists>m e. float_of_int n = Fin m e \<and> 0 < m
    \<and> \<bar>fpval m e - real_of_int n\<bar> \<le> real_of_int n / 2 ^ 24"
proof -
  obtain m e where r: "round_to 24 n 1 = (m, e)" by (cases "round_to 24 n 1")
  have "float_of_int n = Fin m e" using assms r by (simp add: float_of_int_def)
  moreover have "0 < m" using round_to_val(2)[OF assms _ _ r] by simp
  moreover have "\<bar>fpval m e - real_of_int n\<bar> \<le> real_of_int n / 2 ^ 24"
    using round_to_val(1)[OF assms _ _ r] by simp
  ultimately show ?thesis by blast
qed

lemma float_recip_val:
  assumes "0 < m"
  shows "\<exists>m' e'. float_recip (Fin m e) = Fin m' e' \<and> 0 < m'
    \<and> \<bar>fpval m' e' - 1 / fpval m e\<bar> \<le> 1 / fpval m e / 2 ^ 24"
proof -
  obtain n d where s: "scaled 1 m e = (n, d)" by (cases "scaled 1 m e")
  obtain m' e' where r: "round_to 24 n d = (m', e')" by (cases "round_to 24 n d")
  have d: "0 < d" and nd: "real_of_int n / real_of_int d = 1 / real_of_int m * 2 powr (- real_of_int e)"
    using scaled_val[OF assms s] by simp_all
  have n: "0 < n" using s by (auto simp: scaled_def)
  have v: "real_of_int n / real_of_int d = 1 / fpval m e"
    unfolding nd by (simp add: fpval_def powr_minus field_simps)
  have "float_recip (Fin m e) = Fin m' e'" using assms s r by simp
  moreover have "0 < m'" using round_to_val(2)[OF n d _ r] by simp
  moreover have "\<bar>fpval m' e' - 1 / fpval m e\<bar> \<le> 1 / fpval m e / 2 ^ 24"
    using round_to_val(1)[OF n d _ r] by (simp add: v)
  ultimately show ?thesis by blast
qed

lemma double_mul_val:
  assumes "0 < tot" "0 < m"
  shows "\<exists>M E. double_mul tot (Fin m e) = Fin M E \<and> 0 < M
    \<and> \<bar>fpval M E - real_of_int tot * fpval m e\<bar> \<le> real_of_int tot * fpval m e / 2 ^ 53"
proof -
  have tm: "0 < tot * m" using assms by simp
  obtain m' e' where r: "round_to 53 (tot * m) 1 = (m', e')" by (cases "round_to 53 (tot * m) 1")
  have m': "0 < m'" using round_to_val(2)[OF tm _ _ r] by simp
  have b: "\<bar>fpval m' e' - real_of_int (tot * m)\<bar> \<le> real_of_int (tot * m) / 2 ^ 53"
    using round_to_val(1)[OF tm _ _ r] by simp
  have "double_mul tot (Fin m e) = Fin m' (e' + e)"
    using tm r assms by (simp add: abs_of_pos sgn_1_pos)
  moreover have "\<bar>fpval m' (e' + e) - real_of_int tot * fpval m e\<bar>
      \<le> real_of_int tot * fpval m e / 2 ^ 53"
  proof -
    let ?P = "2 powr real_of_int e"
    have "fpval m' (e' + e) - real_of_int tot * fpval m e
        = (fpval m' e' - real_of_int (tot * m)) * ?P"
      by (simp add: fpval_def powr_add algebra_simps)
    then have "\<bar>fpval m' (e' + e) - real_of_int tot * fpval m e\<bar>
        = \<bar>fpval m' e' - real_of_int (tot * m)\<bar> * ?P"
      by (simp add: abs_mult)
    also have "\<dots> \<le> real_of_int (tot * m) / 2 ^ 53 * ?P"
      using b by (intro mult_right_mono) auto
    also have "\<dots> = real_of_int tot * fpval m e / 2 ^ 53"
      by (simp add: fpval_def)
    finally show ?thesis .
  qed
  ultimately show ?thesis using m' by blast
qed

lemma to_uchar_Fin:
  assumes "v = (if 0 \<le> e then m * 2 ^ nat e else sgn m * (\<bar>m\<bar> div 2 ^ nat (- e)))"
  shows "to_uchar (Fin m e)
      = (if 0 \<le> v \<and> v \<le> 255 then Inr (word_of_int v) else Inl UndefinedConversion)"
  unfolding to_uchar.simps(1) assms Let_def ..

lemma to_uchar_val:
  assumes "0 < m" "fpval m e < 256"
  shows "\<exists>v. to_uchar (Fin m e) = Inr v"
proof -
  define v where "v = (if 0 \<le> e then m * 2 ^ nat e else sgn m * (\<bar>m\<bar> div 2 ^ nat (- e)))"
  have tu: "to_uchar (Fin m e)
      = (if 0 \<le> v \<and> v \<le> 255 then Inr (word_of_int v) else Inl UndefinedConversion)"
    by (rule to_uchar_Fin[OF v_def])
  have bound: "0 \<le> v \<and> real_of_int v \<le> fpval m e"
  proof (cases "0 \<le> e")
    case True
    then have v: "v = m * 2 ^ nat e" by (simp only: v_def if_True)
    have "real_of_int e = real (nat e)" using True by simp
    then have "2 powr real_of_int e = 2 powr real (nat e)" by (rule arg_cong)
    also have "\<dots> = 2 ^ nat e" by (simp add: powr_realpow)
    finally have "fpval m e = real_of_int (m * 2 ^ nat e)" by (simp add: fpval_def)
    moreover have "0 \<le> m * 2 ^ nat e" using assms(1) by simp
    ultimately show ?thesis using v by simp
  next
    case False
    have sm: "sgn m = 1" "\<bar>m\<bar> = m" using assms(1) by simp_all
    have v: "v = m div 2 ^ nat (- e)" using False by (simp only: v_def if_False sm mult_1)
    have "real_of_int e = - real (nat (- e))" using False by simp
    then have "2 powr real_of_int e = 2 powr (- real (nat (- e)))" by (rule arg_cong)
    also have "\<dots> = 1 / 2 ^ nat (- e)" by (simp add: powr_minus powr_realpow divide_simps)
    finally have p: "fpval m e = real_of_int m / 2 ^ nat (- e)" by (simp add: fpval_def)
    have "real_of_int (m div 2 ^ nat (- e))
        = real_of_int \<lfloor>real_of_int m / real_of_int (2 ^ nat (- e))\<rfloor>"
      by (simp only: floor_divide_of_int_eq)
    also have "\<dots> \<le> real_of_int m / real_of_int (2 ^ nat (- e))" by (rule of_int_floor_le)
    finally have "real_of_int (m div 2 ^ nat (- e)) \<le> fpval m e" by (simp add: p)
    moreover have "0 \<le> m div 2 ^ nat (- e)"
      using assms(1) by (simp add: pos_imp_zdiv_nonneg_iff)
    ultimately show ?thesis using v by simp
  qed
  then have "real_of_int v < 256" using assms(2) by linarith
  then have "v \<le> 255" by linarith
  then have c: "0 \<le> v \<and> v \<le> 255" using bound by blast
  have "to_uchar (Fin m e) = Inr (word_of_int v)"
    unfolding tu using c by (rule if_P)
  then show ?thesis by (rule exI)
qed

lemma chain_arith:
  fixes n f1 f2 f3 t :: real
  assumes np: "0 < n" and v1: "n * (999 / 1000) \<le> f1"
    and v2: "f2 \<le> 1 / f1 * (1001 / 1000)" and f2: "0 \<le> f2"
    and v3: "f3 \<le> t * f2 * (1001 / 1000)" and t: "0 \<le> t" "t \<le> 255 * n"
  shows "f3 < 256"
proof -
  have f1p: "0 < n * (999 / 1000)" using np by simp
  then have f1: "0 < f1" using v1 by linarith
  have "1 / f1 \<le> 1 / (n * (999 / 1000))"
    using v1 f1p by (intro frac_le) auto
  also have "\<dots> = 1000 / (999 * n)" using np by (simp add: divide_simps)
  finally have a: "1 / f1 \<le> 1000 / (999 * n)" .
  have "1 / f1 * (1001 / 1000) \<le> 1000 / (999 * n) * (1001 / 1000)"
    using a by (rule mult_right_mono) simp
  also have "\<dots> = 1001 / (999 * n)" by (simp add: divide_simps)
  finally have b: "f2 \<le> 1001 / (999 * n)" using v2 by linarith
  have "t * f2 \<le> (255 * n) * (1001 / (999 * n))"
    using t(2) b t(1) f2 np by (intro mult_mono) auto
  also have "\<dots> = 255 * 1001 / 999" using np by (simp add: divide_simps)
  finally have c: "t * f2 \<le> 255 * 1001 / 999" .
  have "t * f2 * (1001 / 1000) \<le> 255 * 1001 / 999 * (1001 / 1000)"
    using c by (rule mult_right_mono) simp
  then have "f3 \<le> 255 * 1001 / 999 * (1001 / 1000)" using v3 by linarith
  then show ?thesis by simp
qed

lemma rel_err_weaken:
  fixes v x :: real
  assumes "\<bar>v - x\<bar> \<le> x / 2 ^ k" "0 \<le> x" "10 \<le> k"
  shows "x * (999 / 1000) \<le> v" "v \<le> x * (1001 / 1000)"
proof -
  have "(2::real) ^ 10 \<le> 2 ^ k" using assms(3) by (intro power_increasing) auto
  then have "(1000::real) \<le> 2 ^ k" by simp
  then have "x / 2 ^ k \<le> x / 1000" using assms(2) by (intro divide_left_mono) auto
  then have a: "\<bar>v - x\<bar> \<le> x / 1000" using assms(1) by linarith
  show "x * (999 / 1000) \<le> v" using a by linarith
  show "v \<le> x * (1001 / 1000)" using a by linarith
qed

text \<open>
  The conversion is defined for every sum of a window of \<open>n\<close> bytes: the product is
  below 256.
\<close>

lemma conversion_defined:
  assumes n: "0 < n" and t: "0 \<le> tot" "tot \<le> 255 * n"
  shows "\<exists>v. to_uchar (double_mul tot (float_recip (float_of_int n))) = Inr v"
proof (cases "tot = 0")
  case True
  obtain m1 e1 where "float_of_int n = Fin m1 e1" "0 < m1"
    using float_of_int_val[OF n] by blast
  moreover obtain m2 e2 where "float_recip (Fin m1 e1) = Fin m2 e2"
    using float_recip_val[OF \<open>0 < m1\<close>, of e1] by blast
  moreover have "double_mul 0 (Fin m2 e2) = Fin 0 0" by simp
  moreover have "to_uchar (Fin 0 0) = Inr 0" by code_simp
  ultimately show ?thesis unfolding True by (simp only: exI)
next
  case False
  then have tp: "0 < tot" using t by simp
  obtain m1 e1 where f1: "float_of_int n = Fin m1 e1" "0 < m1"
    "\<bar>fpval m1 e1 - real_of_int n\<bar> \<le> real_of_int n / 2 ^ 24"
    using float_of_int_val[OF n] by blast
  obtain m2 e2 where f2: "float_recip (Fin m1 e1) = Fin m2 e2" "0 < m2"
    "\<bar>fpval m2 e2 - 1 / fpval m1 e1\<bar> \<le> 1 / fpval m1 e1 / 2 ^ 24"
    using float_recip_val[OF f1(2), of e1] by blast
  obtain m3 e3 where f3: "double_mul tot (Fin m2 e2) = Fin m3 e3" "0 < m3"
    "\<bar>fpval m3 e3 - real_of_int tot * fpval m2 e2\<bar> \<le> real_of_int tot * fpval m2 e2 / 2 ^ 53"
    using double_mul_val[OF tp f2(2), of e2] by blast
  have np: "0 < real_of_int n" using n by simp
  have v1p: "0 < fpval m1 e1" using f1(2) by (simp add: fpval_def)
  have v2p: "0 \<le> fpval m2 e2" using f2(2) by (simp add: fpval_def)
  have tr: "0 \<le> real_of_int tot" "real_of_int tot \<le> 255 * real_of_int n"
  proof -
    show "0 \<le> real_of_int tot" using t(1) by simp
    have "real_of_int tot \<le> real_of_int (255 * n)" using t(2) by (rule of_int_le_iff[THEN iffD2])
    then show "real_of_int tot \<le> 255 * real_of_int n" by simp
  qed
  have v1: "real_of_int n * (999 / 1000) \<le> fpval m1 e1"
    using rel_err_weaken(1)[OF f1(3)] np by simp
  have v2: "fpval m2 e2 \<le> 1 / fpval m1 e1 * (1001 / 1000)"
    using rel_err_weaken(2)[OF f2(3)] v1p by simp
  have v3: "fpval m3 e3 \<le> real_of_int tot * fpval m2 e2 * (1001 / 1000)"
    using rel_err_weaken(2)[OF f3(3)] tr(1) v2p by simp
  have "fpval m3 e3 < 256"
    using np v1 v2 v2p v3 tr by (rule chain_arith)
  then show ?thesis
    unfolding f1(1) f2(1) f3(1) by (rule to_uchar_val[OF f3(2)])
qed

section \<open>When a pass completes\<close>

lemma wsum_le:
  assumes "\<And>i j. l < i \<Longrightarrow> i \<le> r \<Longrightarrow> t < j \<Longrightarrow> j \<le> b \<Longrightarrow> f i j \<le> k"
    and "l \<le> r" "t \<le> b"
  shows "wsum f l r t b \<le> k * (r - l) * (b - t)"
proof -
  have "(\<Sum>i = l + 1..r. f i j) \<le> k * (r - l)" if "t < j" "j \<le> b" for j
  proof -
    have "(\<Sum>i = l + 1..r. f i j) \<le> (\<Sum>i = l + 1..r. k)"
      using assms(1) that by (intro sum_mono) auto
    then show ?thesis using assms(2) by (simp add: mult.commute)
  qed
  then have "wsum f l r t b \<le> (\<Sum>j = t + 1..b. k * (r - l))"
    unfolding wsum_def by (intro sum_mono) auto
  then show ?thesis using assms(3) by (simp add: mult.commute)
qed

lemma inset_window_T_bounds:
  assumes r: "0 \<le> radius" and i: "inset radius width height x y"
  shows "0 \<le> window_T radius width height channel src x y"
    "window_T radius width height channel src x y \<le> 255 * (2 * radius) ^ 2"
proof -
  have T: "window_T radius width height channel src x y
       = wsum (chan width channel src) (x - radius) (x + radius) (y - radius) (y + radius)"
    using r i by (rule inset_window_T(5))
  show "0 \<le> window_T radius width height channel src x y"
    unfolding T by (simp add: wsum_nonneg chan_nonneg)
  have "wsum (chan width channel src) (x - radius) (x + radius) (y - radius) (y + radius)
      \<le> 255 * (x + radius - (x - radius)) * (y + radius - (y - radius))"
    using r by (intro wsum_le chan_le) auto
  also have "\<dots> = 255 * (2 * radius) ^ 2"
    by (simp add: power2_eq_square algebra_simps)
  finally show "window_T radius width height channel src x y \<le> 255 * (2 * radius) ^ 2"
    unfolding T .
qed

lemma mul_of_exact:
  assumes "(2 * radius) ^ 2 < 2 ^ 31"
  shows "mul_of radius = float_recip (float_of_int ((2 * radius) ^ 2))"
proof -
  have e: "(radius * 2) * (radius * 2) = (2 * radius) ^ 2"
    by (simp add: power2_eq_square algebra_simps)
  have "- (2 ^ 31) \<le> (0::int)" by simp
  moreover have "0 \<le> (2 * radius) ^ 2" by simp
  ultimately have "- (2 ^ 31) \<le> (2 * radius) ^ 2" by (rule order_trans)
  then have "int32 ((2 * radius) ^ 2) = (2 * radius) ^ 2"
    using assms by (rule int32_id)
  then show ?thesis unfolding mul_of_def e by simp
qed

text \<open>
  Up to an effective radius of 1450 no windowed sum reaches \<open>2 ^ 31\<close>, every conversion
  of a pass is defined, and the pass completes.
\<close>

lemma blur_value_defined:
  assumes r: "1 \<le> radius" and small: "255 * (2 * radius) ^ 2 < 2 ^ 31"
    and i: "inset radius width height x y"
  shows "\<exists>v. blur_value (mul_of radius) radius width height
           (ptable width height channel src) x y = Inr v"
proof -
  let ?T = "window_T radius width height channel src x y"
  have r0: "0 \<le> radius" using r by simp
  have xy: "0 \<le> x" "x < width" "0 \<le> y" "y < height"
    using inset_range[OF r0 i] by auto
  have b: "0 \<le> ?T" "?T \<le> 255 * (2 * radius) ^ 2"
    using inset_window_T_bounds[OF r0 i] by auto
  have n: "0 < (2 * radius) ^ 2" using r by simp
  have n31: "(2 * radius) ^ 2 < 2 ^ 31" using small n by linarith
  have "- (2 ^ 31) \<le> (0::int)" by simp
  then have "- (2 ^ 31) \<le> ?T" using b(1) by (rule order_trans)
  moreover have "?T < 2 ^ 31" using b(2) small by (rule le_less_trans)
  ultimately have "- (2 ^ 31) \<le> ?T" "?T < 2 ^ 31" by blast+
  then have "int32 ?T = ?T" by (rule int32_id)
  then have "blur_value (mul_of radius) radius width height (ptable width height channel src) x y
      = to_uchar (double_mul ?T (float_recip (float_of_int ((2 * radius) ^ 2))))"
    by (simp add: blur_value_def tot_at_ptable[OF r0 xy] mul_of_exact[OF n31] int32_def)
  then show ?thesis using conversion_defined[OF n b] by simp
qed

lemma channel_pass_total:
  assumes "wf_buffers width height src precalc" "1 \<le> radius"
    and "255 * (2 * radius) ^ 2 < 2 ^ 31" "0 \<le> channel" "channel < 4"
  shows "\<exists>st'. channel_pass (mul_of radius) radius width height channel (src, precalc) = Inr st'"
proof -
  have r0: "0 \<le> radius" using assms(2) by simp
  show ?thesis
    using channel_pass_ok[OF assms(1) r0 assms(4,5), of "mul_of radius"]
      blur_value_defined[OF assms(2,3)]
    by blast
qed

lemma surface_blur_total:
  assumes "well_formed surf" "2 \<le> radius0" "255 * (2 * (radius0 - 1)) ^ 2 < 2 ^ 31"
  shows "\<exists>src'. surface_blur heap surf radius0 = Inr src'"
proof -
  let ?w = "surf_width surf" and ?h = "surf_height surf"
  let ?r = "radius0 - 1"
  let ?I = "\<lambda>st. wf_buffers ?w ?h (fst st) (snd st)"
  have r: "1 \<le> ?r" using assms(2) by simp
  have step: "case_sum (\<lambda>e. False) ?I (channel_pass (mul_of ?r) ?r ?w ?h c st)"
    if c: "0 \<le> c" "c < 4" and i: "?I st" for c st
  proof -
    obtain s p where st: "st = (s, p)" by (cases st)
    have wfb: "wf_buffers ?w ?h s p" using i st by simp
    obtain st' where res: "channel_pass (mul_of ?r) ?r ?w ?h c (s, p) = Inr st'"
      using channel_pass_total[OF wfb r assms(3) c] by blast
    obtain s' p' where st': "st' = (s', p')" by (cases st')
    have "wf_buffers ?w ?h s' p'"
      using channel_pass_ok[OF wfb _ c, of ?r "mul_of ?r"] r res st' by auto
    then show ?thesis using res st st' by simp
  qed
  have "case_sum (\<lambda>e. False) (\<lambda>src'. \<exists>precalc'. ?I (src', precalc'))
      (surface_blur heap surf radius0)"
    using step well_formed_wf[OF assms(1), of heap]
    by (intro surface_blur_rule[of ?I]) auto
  then show ?thesis by (cases "surface_blur heap surf radius0") auto
qed

lemma conversion_check:
  "list_all (\<lambda>r. list_all (\<lambda>v.
      to_uchar (double_mul (int32 (v * (2 * r) ^ 2)) (mul_of r)) = Inr (word_of_int v))
      [0..255]) [1..4]"
  by code_simp

lemma conversion_fixed_small:
  assumes "1 \<le> radius" "radius \<le> 4"
  shows "to_uchar (double_mul (int32 (uint (v :: 8 word) * (2 * radius) ^ 2)) (mul_of radius))
           = Inr v"
proof -
  have "uint v < 2 ^ 8" using uint_bounded[of v] by simp
  then have v: "uint v \<in> set [0..255]" by simp
  have r: "radius \<in> set [1..4]" using assms by simp
  have "to_uchar (double_mul (int32 (uint v * (2 * radius) ^ 2)) (mul_of radius))
      = Inr (word_of_int (uint v))"
    using conversion_check r v unfolding list_all_iff by blast
  then show ?thesis by simp
qed

section \<open>The loops with the compiled conversion\<close>

text \<open>Where the loops above complete, the loops with the compiled conversion do the same.\<close>

lemma machine_uchar_defined: "to_uchar d = Inr v \<Longrightarrow> machine_uchar ub d = v"
  by (simp add: machine_uchar_def)

lemma bnd_Inr_iff: "bnd m f = Inr s \<longleftrightarrow> (\<exists>v. m = Inr v \<and> f v = Inr s)"
  by (cases m) simp_all

lemma blur_cell_agree:
  assumes "blur_cell mul radius width height precalc x y pix src = Inr s"
  shows "blur_cell_m ub mul radius width height precalc x y pix src = Inr s"
proof -
  define l t r b where "l = (if x < radius then 0 else x - radius)"
    and "t = (if y < radius then 0 else y - radius)"
    and "r = (if x + radius \<ge> width then width - 1 else x + radius)"
    and "b = (if y + radius \<ge> height then height - 1 else y + radius)"
  have a: "bnd (rd precalc (r + b * width)) (\<lambda>rb.
         bnd (rd precalc (l + t * width)) (\<lambda>lt.
         bnd (rd precalc (l + b * width)) (\<lambda>lb.
         bnd (rd precalc (r + t * width)) (\<lambda>rt.
         bnd (to_uchar (double_mul (sint (rb + lt - lb - rt)) mul)) (\<lambda>v.
         wr src pix v))))) = Inr s"
    using assms unfolding blur_cell_def Let_def l_def t_def r_def b_def .
  then obtain rb lt lb rt v where v: "rd precalc (r + b * width) = Inr rb"
    "rd precalc (l + t * width) = Inr lt" "rd precalc (l + b * width) = Inr lb"
    "rd precalc (r + t * width) = Inr rt"
    "to_uchar (double_mul (sint (rb + lt - lb - rt)) mul) = Inr v" "wr src pix v = Inr s"
    unfolding bnd_Inr_iff by blast
  have "blur_cell_m ub mul radius width height precalc x y pix src
      = bnd (rd precalc (r + b * width)) (\<lambda>rb.
         bnd (rd precalc (l + t * width)) (\<lambda>lt.
         bnd (rd precalc (l + b * width)) (\<lambda>lb.
         bnd (rd precalc (r + t * width)) (\<lambda>rt.
         wr src pix (machine_uchar ub (double_mul (sint (rb + lt - lb - rt)) mul))))))"
    unfolding blur_cell_m_def Let_def l_def t_def r_def b_def ..
  also have "\<dots> = Inr s"
    unfolding v(1-4) bnd_Inr machine_uchar_defined[OF v(5)] by (rule v(6))
  finally show ?thesis .
qed

lemma blur_x_agree:
  "blur_x mul radius width height precalc y x pix src = Inr res
    \<Longrightarrow> blur_x_m ub mul radius width height precalc y x pix src = Inr res"
proof (induction "nat (width - radius - x)" arbitrary: x pix src)
  case 0
  then have x: "\<not> x < width - radius" by simp
  have "blur_x mul radius width height precalc y x pix src = Inr (pix, src)"
    using x by (subst blur_x.simps) simp
  moreover have "blur_x_m ub mul radius width height precalc y x pix src = Inr (pix, src)"
    using x by (subst blur_x_m.simps) simp
  ultimately show ?case using "0.prems" by simp
next
  case (Suc n)
  then have x: "x < width - radius" by simp
  let ?c = "blur_cell mul radius width height precalc x y pix src"
  have eq: "blur_x mul radius width height precalc y x pix src
      = bnd ?c (\<lambda>src'. blur_x mul radius width height precalc y (x + 1) (pix + 4) src')"
    using x by (subst blur_x.simps) simp
  have eqm: "blur_x_m ub mul radius width height precalc y x pix src
      = bnd (blur_cell_m ub mul radius width height precalc x y pix src)
          (\<lambda>src'. blur_x_m ub mul radius width height precalc y (x + 1) (pix + 4) src')"
    using x by (subst blur_x_m.simps) simp
  show ?case
  proof (cases ?c)
    case (Inl e)
    then show ?thesis using Suc.prems unfolding eq by simp
  next
    case (Inr s)
    have "blur_x mul radius width height precalc y (x + 1) (pix + 4) s = Inr res"
      using Suc.prems unfolding eq Inr by simp
    moreover have "n = nat (width - radius - (x + 1))" using Suc.hyps(2) by simp
    ultimately have "blur_x_m ub mul radius width height precalc y (x + 1) (pix + 4) s = Inr res"
      by (rule Suc.hyps(1)[rotated])
    then show ?thesis unfolding eqm blur_cell_agree[OF Inr, of ub] by simp
  qed
qed

lemma blur_y_agree:
  "blur_y mul radius width height precalc y pix src = Inr res
    \<Longrightarrow> blur_y_m ub mul radius width height precalc y pix src = Inr res"
proof (induction "nat (height - radius - y)" arbitrary: y pix src)
  case 0
  then have y: "\<not> y < height - radius" by simp
  have "blur_y mul radius width height precalc y pix src = Inr src"
    using y by (subst blur_y.simps) simp
  moreover have "blur_y_m ub mul radius width height precalc y pix src = Inr src"
    using y by (subst blur_y_m.simps) simp
  ultimately show ?case using "0.prems" by simp
next
  case (Suc n)
  then have y: "y < height - radius" by simp
  let ?c = "blur_x mul radius width height precalc y radius pix src"
  have eq: "blur_y mul radius width height precalc y pix src
      = bnd ?c (\<lambda>(pix', src').
          blur_y mul radius width height precalc (y + 1) (pix' + radius * 2 * 4) src')"
    using y by (subst blur_y.simps) simp
  have eqm: "blur_y_m ub mul radius width height precalc y pix src
      = bnd (blur_x_m ub mul radius width height precalc y radius pix src) (\<lambda>(pix', src').
          blur_y_m ub mul radius width height precalc (y + 1) (pix' + radius * 2 * 4) src')"
    using y by (subst blur_y_m.simps) simp
  show ?case
  proof (cases ?c)
    case (Inl e)
    then show ?thesis using Suc.prems unfolding eq by simp
  next
    case (Inr ps)
    obtain p s where ps: "ps = (p, s)" by (cases ps)
    have "blur_y mul radius width height precalc (y + 1) (p + radius * 2 * 4) s = Inr res"
      using Suc.prems unfolding eq Inr ps by simp
    moreover have "n = nat (height - radius - (y + 1))" using Suc.hyps(2) by simp
    ultimately have "blur_y_m ub mul radius width height precalc (y + 1) (p + radius * 2 * 4) s
        = Inr res"
      by (rule Suc.hyps(1)[rotated])
    then show ?thesis unfolding eqm blur_x_agree[OF Inr, of ub] ps by simp
  qed
qed

lemma channel_pass_agree:
  assumes "channel_pass mul radius width height channel st = Inr st'"
  shows "channel_pass_m ub mul radius width height channel st = Inr st'"
proof -
  obtain src precalc where st: "st = (src, precalc)" by (cases st)
  show ?thesis
  proof (cases "prefix_y width height src 0 channel 0 precalc")
    case (Inl e)
    then show ?thesis using assms st by (simp add: channel_pass_def)
  next
    case (Inr p)
    show ?thesis
    proof (cases "blur_y mul radius width height p radius
        (radius * width * 4 + radius * 4 + channel) src")
      case (Inl e)
      then show ?thesis using assms st Inr by (simp add: channel_pass_def)
    next
      case b: (Inr s)
      show ?thesis using assms st Inr b blur_y_agree[OF b, of ub]
        by (simp add: channel_pass_def channel_pass_m_def)
    qed
  qed
qed

lemma channel_loop_agree:
  "channel_loop mul radius width height channel st = Inr st'
    \<Longrightarrow> channel_loop_m ub mul radius width height channel st = Inr st'"
proof (induction "nat (4 - channel)" arbitrary: channel st)
  case 0
  then have c: "\<not> channel < 4" by simp
  have "channel_loop mul radius width height channel st = Inr st"
    using c by (subst channel_loop.simps) simp
  moreover have "channel_loop_m ub mul radius width height channel st = Inr st"
    using c by (subst channel_loop_m.simps) simp
  ultimately show ?case using "0.prems" by simp
next
  case (Suc n)
  then have c: "channel < 4" by simp
  let ?c = "channel_pass mul radius width height channel st"
  have eq: "channel_loop mul radius width height channel st
      = bnd ?c (channel_loop mul radius width height (channel + 1))"
    using c by (subst channel_loop.simps) simp
  have eqm: "channel_loop_m ub mul radius width height channel st
      = bnd (channel_pass_m ub mul radius width height channel st)
          (channel_loop_m ub mul radius width height (channel + 1))"
    using c by (subst channel_loop_m.simps) simp
  show ?case
  proof (cases ?c)
    case (Inl e)
    then show ?thesis using Suc.prems unfolding eq by simp
  next
    case (Inr s)
    have "channel_loop mul radius width height (channel + 1) s = Inr st'"
      using Suc.prems unfolding eq Inr by simp
    moreover have "n = nat (4 - (channel + 1))" using Suc.hyps(2) by simp
    ultimately have "channel_loop_m ub mul radius width height (channel + 1) s = Inr st'"
      by (rule Suc.hyps(1)[rotated])
    then show ?thesis unfolding eqm channel_pass_agree[OF Inr, of ub] by simp
  qed
qed

lemma iteration_loop_agree:
  "iteration_loop mul radius width height iteration st = Inr st'
    \<Longrightarrow> iteration_loop_m ub mul radius width height iteration st = Inr st'"
proof (induction "nat (MAX_ITERATIONS - iteration)" arbitrary: iteration st)
  case 0
  then have i: "\<not> iteration < MAX_ITERATIONS" by simp
  have "iteration_loop mul radius width height iteration st = Inr st"
    using i by (subst iteration_loop.simps) simp
  moreover have "iteration_loop_m ub mul radius width height iteration st = Inr st"
    using i by (subst iteration_loop_m.simps) simp
  ultimately show ?case using "0.prems" by simp
next
  case (Suc n)
  then have i: "iteration < MAX_ITERATIONS" by simp
  let ?c = "channel_loop mul radius width height 0 st"
  have eq: "iteration_loop mul radius width height iteration st
      = bnd ?c (iteration_loop mul radius width height (iteration + 1))"
    using i by (subst iteration_loop.simps) simp
  have eqm: "iteration_loop_m ub mul radius width height iteration st
      = bnd (channel_loop_m ub mul radius width height 0 st)
          (iteration_loop_m ub mul radius width height (iteration + 1))"
    using i by (subst iteration_loop_m.simps) simp
  show ?case
  proof (cases ?c)
    case (Inl e)
    then show ?thesis using Suc.prems unfolding eq by simp
  next
    case (Inr s)
    have "iteration_loop mul radius width height (iteration + 1) s = Inr st'"
      using Suc.prems unfolding eq Inr by simp
    moreover have "n = nat (MAX_ITERATIONS - (iteration + 1))" using Suc.hyps(2) by simp
    ultimately have "iteration_loop_m ub mul radius width height (iteration + 1) s = Inr st'"
      by (rule Suc.hyps(1)[rotated])
    then show ?thesis unfolding eqm channel_loop_agree[OF Inr, of ub] by simp
  qed
qed

lemma surface_blur_agree:
  assumes "surface_blur heap surf radius0 = Inr src'"
  shows "surface_blur_m ub heap surf radius0 = Inr src'"
proof -
  let ?st = "(surf_data surf, malloc_unsigned heap (surf_width surf * surf_height surf))"
  let ?l = "iteration_loop (mul_of (radius0 - 1)) (radius0 - 1) (surf_width surf)
      (surf_height surf) 0 ?st"
  have run: "bnd ?l (\<lambda>(src', precalc'). Inr src') = Inr src'"
    using assms by (simp add: surface_blur_def Let_def)
  then obtain st' where s: "?l = Inr st'" by (cases ?l) auto
  show ?thesis
    using run s iteration_loop_agree[OF s, of ub]
    by (simp add: surface_blur_m_def Let_def)
qed

text \<open>
  The loops with the compiled conversion always complete on well-formed buffers, and
  write only the bytes of the channel inside the inset rectangle.
\<close>

lemma blur_cell_m_ok:
  assumes r: "0 \<le> radius" and x: "0 \<le> x" "x < width" and y: "0 \<le> y" "y < height"
    and c: "0 \<le> channel" "channel < 4"
    and pix: "pix = offset width channel x y"
    and ls: "int (length src) = 4 * width * height"
    and lp: "int (length precalc) = width * height"
  shows "blur_cell_m ub mul radius width height precalc x y pix src
           = Inr (src[nat pix := machine_uchar ub
                (double_mul (sint (tot_at radius width height precalc x y)) mul)])"
proof -
  define l t r b where "l = max 0 (x - radius)" and "t = max 0 (y - radius)"
    and "r = min (width - 1) (x + radius)" and "b = min (height - 1) (y + radius)"
  have lb: "0 \<le> l" "l < width" "0 \<le> r" "r < width" "0 \<le> t" "t < height" "0 \<le> b" "b < height"
    using r x y by (auto simp: l_def t_def r_def b_def)
  have code: "(if x < radius then 0 else x - radius) = l" "(if y < radius then 0 else y - radius) = t"
    "(if x + radius \<ge> width then width - 1 else x + radius) = r"
    "(if y + radius \<ge> height then height - 1 else y + radius) = b"
    by (auto simp: l_def t_def r_def b_def)
  have rd4: "rd precalc (r + b * width) = Inr (precalc ! nat (r + b * width))"
    "rd precalc (l + t * width) = Inr (precalc ! nat (l + t * width))"
    "rd precalc (l + b * width) = Inr (precalc ! nat (l + b * width))"
    "rd precalc (r + t * width) = Inr (precalc ! nat (r + t * width))"
    using cell_bound[of r width b height] cell_bound[of l width t height]
      cell_bound[of l width b height] cell_bound[of r width t height] lb lp
    by (simp_all add: rd_in add.commute)
  have wr1: "wr src pix v = Inr (src[nat pix := v])" for v
    using offset_bound[OF x y c] pix ls by (simp add: wr_in)
  have tot: "tot_at radius width height precalc x y
      = precalc ! nat (r + b * width) + precalc ! nat (l + t * width)
         - precalc ! nat (l + b * width) - precalc ! nat (r + t * width)"
    by (simp add: tot_at_def Let_def l_def t_def r_def b_def)
  show ?thesis
    unfolding blur_cell_m_def code Let_def rd4 tot by (simp add: wr1)
qed

lemma blur_x_m_ok:
  assumes r: "0 \<le> radius" and y: "0 \<le> y" "y < height"
    and c: "0 \<le> channel" "channel < 4"
    and lp: "int (length precalc) = width * height"
  shows "0 \<le> x \<Longrightarrow> pix = offset width channel x y
    \<Longrightarrow> int (length src) = 4 * width * height
    \<Longrightarrow> \<exists>src'. blur_x_m ub mul radius width height precalc y x pix src
                 = Inr (offset width channel (max x (width - radius)) y, src')
          \<and> length src' = length src
          \<and> (\<forall>x' y' c'. 0 \<le> x' \<and> x' < width \<and> 0 \<le> y' \<and> 0 \<le> c' \<and> c' < 4
                \<and> \<not> (c' = channel \<and> y' = y \<and> x \<le> x' \<and> x' < width - radius) \<longrightarrow>
                src' ! nat (offset width c' x' y') = src ! nat (offset width c' x' y'))"
proof (induction "nat (width - radius - x)" arbitrary: x pix src)
  case 0
  then have "\<not> x < width - radius" by simp
  then have "blur_x_m ub mul radius width height precalc y x pix src = Inr (pix, src)"
    by (subst blur_x_m.simps) simp
  moreover have "max x (width - radius) = x" using 0 by simp
  ultimately show ?case using 0 by simp
next
  case (Suc n)
  then have x: "0 \<le> x" "x < width" "x < width - radius" using r by auto
  let ?bx = "blur_x_m ub mul radius width height precalc y"
  let ?v = "machine_uchar ub (double_mul (sint (tot_at radius width height precalc x y)) mul)"
  let ?s = "src[nat pix := ?v]"
  have cell: "blur_cell_m ub mul radius width height precalc x y pix src = Inr ?s"
    using Suc.prems by (intro blur_cell_m_ok[OF r x(1,2) y c _ _ lp]) auto
  have unfold: "?bx x pix src = ?bx (x + 1) (pix + 4) ?s"
    using x cell by (subst blur_x_m.simps) simp
  have pixb: "0 \<le> pix" "pix < 4 * width * height"
    using offset_bound[OF x(1,2) y c] Suc.prems by auto
  have "\<exists>src'. ?bx (x + 1) (pix + 4) ?s
                 = Inr (offset width channel (max (x + 1) (width - radius)) y, src')
          \<and> length src' = length ?s
          \<and> (\<forall>x' y' c'. 0 \<le> x' \<and> x' < width \<and> 0 \<le> y' \<and> 0 \<le> c' \<and> c' < 4
                \<and> \<not> (c' = channel \<and> y' = y \<and> x + 1 \<le> x' \<and> x' < width - radius) \<longrightarrow>
                src' ! nat (offset width c' x' y') = ?s ! nat (offset width c' x' y'))"
    using Suc.hyps(2) x Suc.prems
    by (intro Suc.hyps(1)) (auto simp: offset_def)
  then obtain src' where res: "?bx (x + 1) (pix + 4) ?s
                 = Inr (offset width channel (max (x + 1) (width - radius)) y, src')"
    and len: "length src' = length ?s"
    and fr: "\<forall>x' y' c'. 0 \<le> x' \<and> x' < width \<and> 0 \<le> y' \<and> 0 \<le> c' \<and> c' < 4
                \<and> \<not> (c' = channel \<and> y' = y \<and> x + 1 \<le> x' \<and> x' < width - radius) \<longrightarrow>
                src' ! nat (offset width c' x' y') = ?s ! nat (offset width c' x' y')"
    by blast
  have "src' ! nat (offset width c' x' y') = src ! nat (offset width c' x' y')"
    if h: "0 \<le> x' \<and> x' < width \<and> 0 \<le> y' \<and> 0 \<le> c' \<and> c' < 4
                \<and> \<not> (c' = channel \<and> y' = y \<and> x \<le> x' \<and> x' < width - radius)" for x' y' c'
  proof -
    let ?o = "offset width c' x' y'"
    have "0 \<le> y' * width" using h x by simp
    then have o0: "0 \<le> ?o" using h by (simp add: offset_def)
    have ne: "\<not> (c' = channel \<and> y' = y \<and> x' = x)" using h x by auto
    then have "?o \<noteq> pix"
      using offset_inj[of x' width x c' channel y' y] h x c Suc.prems by auto
    then have "nat ?o \<noteq> nat pix" using o0 pixb by simp
    then have "?s ! nat ?o = src ! nat ?o" by simp
    moreover have "src' ! nat ?o = ?s ! nat ?o" using fr h by auto
    ultimately show ?thesis by simp
  qed
  moreover have "max (x + 1) (width - radius) = max x (width - radius)" using x by simp
  ultimately show ?case unfolding unfold using res len by auto
qed

lemma blur_y_m_empty:
  assumes "\<not> radius < width - radius"
  shows "blur_y_m ub mul radius width height precalc y pix src = Inr src"
proof (induction "nat (height - radius - y)" arbitrary: y pix)
  case 0
  then show ?case by (subst blur_y_m.simps) simp
next
  case (Suc n)
  have "blur_x_m ub mul radius width height precalc y radius pix src = Inr (pix, src)"
    using assms by (subst blur_x_m.simps) simp
  moreover have "blur_y_m ub mul radius width height precalc (y + 1) (pix + radius * 2 * 4) src
      = Inr src"
    using Suc.hyps(2) by (intro Suc.hyps(1)) auto
  ultimately show ?case by (subst blur_y_m.simps) simp
qed

lemma blur_y_m_ok:
  assumes r: "0 \<le> radius" and c: "0 \<le> channel" "channel < 4"
    and lp: "int (length precalc) = width * height"
    and cols: "radius < width - radius"
  shows "radius \<le> y \<Longrightarrow> pix = offset width channel radius y
    \<Longrightarrow> int (length src) = 4 * width * height
    \<Longrightarrow> \<exists>src'. blur_y_m ub mul radius width height precalc y pix src = Inr src'
          \<and> length src' = length src
          \<and> (\<forall>x' y' c'. 0 \<le> x' \<and> x' < width \<and> 0 \<le> y' \<and> 0 \<le> c' \<and> c' < 4
                \<and> \<not> (c' = channel \<and> y \<le> y' \<and> inset radius width height x' y') \<longrightarrow>
                src' ! nat (offset width c' x' y') = src ! nat (offset width c' x' y'))"
proof (induction "nat (height - radius - y)" arbitrary: y pix src)
  case 0
  then have "\<not> y < height - radius" by simp
  then have "blur_y_m ub mul radius width height precalc y pix src = Inr src"
    by (subst blur_y_m.simps) simp
  then show ?case by simp
next
  case (Suc n)
  then have y: "0 \<le> y" "y < height" "y < height - radius" using r by auto
  let ?by = "blur_y_m ub mul radius width height precalc"
  have "\<exists>s1. blur_x_m ub mul radius width height precalc y radius pix src
                 = Inr (offset width channel (max radius (width - radius)) y, s1)
          \<and> length s1 = length src
          \<and> (\<forall>x' y' c'. 0 \<le> x' \<and> x' < width \<and> 0 \<le> y' \<and> 0 \<le> c' \<and> c' < 4
                \<and> \<not> (c' = channel \<and> y' = y \<and> radius \<le> x' \<and> x' < width - radius) \<longrightarrow>
                s1 ! nat (offset width c' x' y') = src ! nat (offset width c' x' y'))"
    using Suc.prems r by (intro blur_x_m_ok[OF r y(1,2) c lp]) auto
  then obtain s1 where row: "blur_x_m ub mul radius width height precalc y radius pix src
                 = Inr (offset width channel (width - radius) y, s1)"
    and l1: "length s1 = length src"
    and f1: "\<forall>x' y' c'. 0 \<le> x' \<and> x' < width \<and> 0 \<le> y' \<and> 0 \<le> c' \<and> c' < 4
                \<and> \<not> (c' = channel \<and> y' = y \<and> radius \<le> x' \<and> x' < width - radius) \<longrightarrow>
                s1 ! nat (offset width c' x' y') = src ! nat (offset width c' x' y')"
    using cols by (auto simp: max_def)
  let ?p = "offset width channel (width - radius) y + radius * 2 * 4"
  have unfold: "?by y pix src = ?by (y + 1) ?p s1"
    using y row by (subst blur_y_m.simps) simp
  have "\<exists>src'. ?by (y + 1) ?p s1 = Inr src'
          \<and> length src' = length s1
          \<and> (\<forall>x' y' c'. 0 \<le> x' \<and> x' < width \<and> 0 \<le> y' \<and> 0 \<le> c' \<and> c' < 4
                \<and> \<not> (c' = channel \<and> y + 1 \<le> y' \<and> inset radius width height x' y') \<longrightarrow>
                src' ! nat (offset width c' x' y') = s1 ! nat (offset width c' x' y'))"
    using Suc.hyps(2) y Suc.prems l1
    by (intro Suc.hyps(1)) (auto simp: offset_def algebra_simps)
  then obtain src' where res: "?by (y + 1) ?p s1 = Inr src'"
    and l2: "length src' = length s1"
    and f2: "\<forall>x' y' c'. 0 \<le> x' \<and> x' < width \<and> 0 \<le> y' \<and> 0 \<le> c' \<and> c' < 4
                \<and> \<not> (c' = channel \<and> y + 1 \<le> y' \<and> inset radius width height x' y') \<longrightarrow>
                src' ! nat (offset width c' x' y') = s1 ! nat (offset width c' x' y')"
    by blast
  have "src' ! nat (offset width c' x' y') = src ! nat (offset width c' x' y')"
    if h: "0 \<le> x' \<and> x' < width \<and> 0 \<le> y' \<and> 0 \<le> c' \<and> c' < 4
                \<and> \<not> (c' = channel \<and> y \<le> y' \<and> inset radius width height x' y')" for x' y' c'
  proof -
    have "src' ! nat (offset width c' x' y') = s1 ! nat (offset width c' x' y')"
      using f2 h by auto
    moreover have "s1 ! nat (offset width c' x' y') = src ! nat (offset width c' x' y')"
      using f1 h y Suc.prems r by (auto simp: inset_def)
    ultimately show ?thesis by simp
  qed
  then show ?case unfolding unfold using res l1 l2 by auto
qed

lemma channel_pass_m_ok:
  assumes wfb: "wf_buffers width height src precalc" and r: "0 \<le> radius"
    and c: "0 \<le> channel" "channel < 4"
  shows "\<exists>src'. channel_pass_m ub mul radius width height channel (src, precalc)
                 = Inr (src', ptable width height channel src)
          \<and> wf_buffers width height src' (ptable width height channel src)
          \<and> length src' = length src
          \<and> (\<forall>x y c'. 0 \<le> x \<and> x < width \<and> 0 \<le> y \<and> y < height \<and> 0 \<le> c' \<and> c' < 4
                \<and> \<not> (c' = channel \<and> inset radius width height x y) \<longrightarrow>
                src' ! nat (offset width c' x y) = src ! nat (offset width c' x y))"
proof -
  let ?t = "ptable width height channel src"
  let ?b = "blur_y_m ub mul radius width height ?t radius
      (radius * width * 4 + radius * 4 + channel) src"
  have ls: "int (length src) = 4 * width * height"
    and lt: "int (length ?t) = width * height"
    using wfb by (auto simp: wf_buffers_def length_ptable)
  have cp: "channel_pass_m ub mul radius width height channel (src, precalc)
      = bnd ?b (\<lambda>src'. Inr (src', ?t))"
    by (simp add: channel_pass_m_def prefix_pass[OF wfb c])
  have pix: "radius * width * 4 + radius * 4 + channel = offset width channel radius radius"
    by (simp add: offset_def algebra_simps)
  have "\<exists>src'. ?b = Inr src' \<and> length src' = length src
          \<and> (\<forall>x' y' c'. 0 \<le> x' \<and> x' < width \<and> 0 \<le> y' \<and> 0 \<le> c' \<and> c' < 4
                \<and> \<not> (c' = channel \<and> radius \<le> y' \<and> inset radius width height x' y') \<longrightarrow>
                src' ! nat (offset width c' x' y') = src ! nat (offset width c' x' y'))"
  proof (cases "radius < width - radius")
    case True
    show ?thesis unfolding pix
      using blur_y_m_ok[OF r c lt True order_refl refl ls, of ub mul] by blast
  next
    case False
    have "?b = Inr src" using False by (rule blur_y_m_empty)
    then show ?thesis by simp
  qed
  then obtain src' where b: "?b = Inr src'" and l: "length src' = length src"
    and f: "\<forall>x' y' c'. 0 \<le> x' \<and> x' < width \<and> 0 \<le> y' \<and> 0 \<le> c' \<and> c' < 4
                \<and> \<not> (c' = channel \<and> radius \<le> y' \<and> inset radius width height x' y') \<longrightarrow>
                src' ! nat (offset width c' x' y') = src ! nat (offset width c' x' y')"
    by blast
  have "wf_buffers width height src' ?t"
    using wfb l by (simp add: wf_buffers_def length_ptable)
  moreover have "\<forall>x y c'. 0 \<le> x \<and> x < width \<and> 0 \<le> y \<and> y < height \<and> 0 \<le> c' \<and> c' < 4
                \<and> \<not> (c' = channel \<and> inset radius width height x y) \<longrightarrow>
                src' ! nat (offset width c' x y) = src ! nat (offset width c' x y)"
    using f by (auto simp: inset_def)
  ultimately show ?thesis unfolding cp using b l by simp
qed

lemma channel_loop_m_rule:
  assumes step: "\<And>c st. 0 \<le> c \<Longrightarrow> c < 4 \<Longrightarrow> I st
      \<Longrightarrow> \<exists>st'. channel_pass_m ub mul radius width height c st = Inr st' \<and> I st'"
  shows "0 \<le> channel \<Longrightarrow> I st
      \<Longrightarrow> \<exists>st'. channel_loop_m ub mul radius width height channel st = Inr st' \<and> I st'"
proof (induction "nat (4 - channel)" arbitrary: channel st)
  case 0
  then show ?case by (subst channel_loop_m.simps) simp
next
  case (Suc n)
  then have c: "0 \<le> channel" "channel < 4" by auto
  obtain st1 where s1: "channel_pass_m ub mul radius width height channel st = Inr st1" "I st1"
    using step[OF c Suc.prems(2)] by blast
  have "\<exists>st'. channel_loop_m ub mul radius width height (channel + 1) st1 = Inr st' \<and> I st'"
    using Suc.hyps(2) c s1(2) by (intro Suc.hyps(1)) auto
  then show ?case using s1(1) c by (subst channel_loop_m.simps) simp
qed

lemma iteration_loop_m_rule:
  assumes step: "\<And>c st. 0 \<le> c \<Longrightarrow> c < 4 \<Longrightarrow> I st
      \<Longrightarrow> \<exists>st'. channel_pass_m ub mul radius width height c st = Inr st' \<and> I st'"
  shows "I st
      \<Longrightarrow> \<exists>st'. iteration_loop_m ub mul radius width height iteration st = Inr st' \<and> I st'"
proof (induction "nat (MAX_ITERATIONS - iteration)" arbitrary: iteration st)
  case 0
  then show ?case by (subst iteration_loop_m.simps) simp
next
  case (Suc n)
  then have i: "iteration < MAX_ITERATIONS" by auto
  obtain st1 where s1: "channel_loop_m ub mul radius width height 0 st = Inr st1" "I st1"
    using channel_loop_m_rule[of I ub mul radius width height 0 st, OF step] Suc.prems by auto
  have "\<exists>st'. iteration_loop_m ub mul radius width height (iteration + 1) st1 = Inr st' \<and> I st'"
    using Suc.hyps(2) s1(2) by (intro Suc.hyps(1)) auto
  then show ?case using s1(1) i by (subst iteration_loop_m.simps) simp
qed

lemma surface_blur_m_frame:
  assumes wf: "well_formed surf" and r0: "1 \<le> radius0"
  shows "\<exists>src'. surface_blur_m ub heap surf radius0 = Inr src'
      \<and> length src' = length (surf_data surf)
      \<and> (\<forall>x y c. 0 \<le> x \<and> x < surf_width surf \<and> 0 \<le> y \<and> y < surf_height surf
            \<and> 0 \<le> c \<and> c < 4
            \<and> \<not> inset (radius0 - 1) (surf_width surf) (surf_height surf) x y \<longrightarrow>
            src' ! nat (offset (surf_width surf) c x y)
              = surf_data surf ! nat (offset (surf_width surf) c x y))"
proof -
  let ?w = "surf_width surf" and ?h = "surf_height surf" and ?s = "surf_data surf"
  let ?r = "radius0 - 1"
  let ?I = "\<lambda>st. wf_buffers ?w ?h (fst st) (snd st) \<and> length (fst st) = length ?s
      \<and> (\<forall>x y c. 0 \<le> x \<and> x < ?w \<and> 0 \<le> y \<and> y < ?h \<and> 0 \<le> c \<and> c < 4
            \<and> \<not> inset ?r ?w ?h x y \<longrightarrow>
            fst st ! nat (offset ?w c x y) = ?s ! nat (offset ?w c x y))"
  have r: "0 \<le> ?r" using r0 by simp
  have step: "\<exists>st'. channel_pass_m ub (mul_of ?r) ?r ?w ?h c st = Inr st' \<and> ?I st'"
    if c: "0 \<le> c" "c < 4" and i: "?I st" for c st
  proof -
    obtain s p where st: "st = (s, p)" by (cases st)
    have wfb: "wf_buffers ?w ?h s p" using i st by simp
    obtain s' where s': "channel_pass_m ub (mul_of ?r) ?r ?w ?h c (s, p)
                 = Inr (s', ptable ?w ?h c s)"
      "wf_buffers ?w ?h s' (ptable ?w ?h c s)" "length s' = length s"
      "\<forall>x y c'. 0 \<le> x \<and> x < ?w \<and> 0 \<le> y \<and> y < ?h \<and> 0 \<le> c' \<and> c' < 4
                \<and> \<not> (c' = c \<and> inset ?r ?w ?h x y) \<longrightarrow>
                s' ! nat (offset ?w c' x y) = s ! nat (offset ?w c' x y)"
      using channel_pass_m_ok[OF wfb r c, of ub "mul_of ?r"] by blast
    have "?I (s', ptable ?w ?h c s)"
      using s'(2,3,4) i st by auto
    then show ?thesis using s'(1) st by blast
  qed
  have init: "?I (?s, malloc_unsigned heap (?w * ?h))"
    using well_formed_wf[OF wf, of heap] by simp
  obtain st' where l: "iteration_loop_m ub (mul_of ?r) ?r ?w ?h 0
      (?s, malloc_unsigned heap (?w * ?h)) = Inr st'" and i: "?I st'"
    using iteration_loop_m_rule[of ?I ub "mul_of ?r" ?r ?w ?h
        "(?s, malloc_unsigned heap (?w * ?h))" 0, OF step init]
    by blast
  have "surface_blur_m ub heap surf radius0 = Inr (fst st')"
    using l by (simp add: surface_blur_m_def Let_def split: prod.splits)
  then show ?thesis using i by blast
qed

text \<open>
  At the effective radius 1451 a window of bytes 255 sums to
  \<open>255 * 2902 * 2902 = 2147509020\<close>, past \<open>2 ^ 31\<close>: the \<open>int\<close> \<open>tot\<close> is negative,
  and so is the product, which has no conversion.
\<close>

lemma conversion_undefined_1451:
  "to_uchar (double_mul (int32 (255 * (2 * 1451) ^ 2)) (mul_of 1451)) = Inl UndefinedConversion"
  by code_simp

text \<open>
  Under the C++ rules a pass stops as soon as one pixel of the inset rectangle has a
  product without a conversion, and the call stops with its first pass.
\<close>

lemma channel_pass_stops:
  assumes wfb: "wf_buffers width height src precalc" and r: "0 \<le> radius"
    and c: "0 \<le> channel" "channel < 4"
    and i: "inset radius width height x y"
    and bad: "to_uchar (double_mul (int32 (window_T radius width height channel src x y)) mul)
        = Inl e"
  shows "channel_pass mul radius width height channel (src, precalc) = Inl UndefinedConversion"
proof (cases "channel_pass mul radius width height channel (src, precalc)")
  case (Inl e')
  then have "e' \<noteq> OutOfBounds" using channel_pass_ok[OF wfb r c, of mul] by simp
  then show ?thesis using Inl by (simp add: error_cases)
next
  case (Inr st')
  obtain src' precalc' where st': "st' = (src', precalc')" by (cases st')
  have "pass_post mul radius width height channel src src'"
    using channel_pass_ok[OF wfb r c, of mul] Inr st' by simp
  then have "to_uchar (double_mul (int32 (window_T radius width height channel src x y)) mul)
      = Inr (src' ! nat (offset width channel x y))"
    using r c i by (rule pass_post_inset)
  then show ?thesis using bad by simp
qed

lemma surface_blur_stops:
  assumes wf: "well_formed surf" and r0: "1 \<le> radius0"
    and i: "inset (radius0 - 1) (surf_width surf) (surf_height surf) x y"
    and bad: "to_uchar (double_mul
        (int32 (window_T (radius0 - 1) (surf_width surf) (surf_height surf) 0 (surf_data surf) x y))
        (mul_of (radius0 - 1))) = Inl e"
  shows "surface_blur heap surf radius0 = Inl UndefinedConversion"
proof -
  have r: "0 \<le> radius0 - 1" using r0 by simp
  have "channel_pass (mul_of (radius0 - 1)) (radius0 - 1) (surf_width surf) (surf_height surf) 0
      (surf_data surf, malloc_unsigned heap (surf_width surf * surf_height surf))
      = Inl UndefinedConversion"
    using well_formed_wf[OF wf, of heap] r _ _ i bad by (rule channel_pass_stops) simp_all
  then show ?thesis
    by (simp add: surface_blur_def Let_def iteration_loop_unrolled channel_loop_unrolled)
qed

section \<open>Prefix sums that wrap\<close>

lemma psum_wsum: "psum f x y = wsum f (- 1) x (- 1) y"
  by (simp add: psum_def wsum_def)

lemma psum_uniform:
  assumes "uniform width height c v src" "0 \<le> x" "x < width" "0 \<le> y" "y < height"
  shows "psum (chan width c src) x y = uint v * (x + 1) * (y + 1)"
proof -
  have "chan width c src i j = uint v" if "- 1 < i" "i \<le> x" "- 1 < j" "j \<le> y" for i j
    using that assms by (auto simp: chan_def uniform_def)
  then have "wsum (chan width c src) (- 1) x (- 1) y = uint v * (x - (- 1)) * (y - (- 1))"
    using assms by (intro wsum_const) auto
  then show ?thesis by (simp add: psum_wsum)
qed

lemma window_T_uniform:
  assumes u: "uniform width height c v src" and r: "0 \<le> radius"
    and i: "inset radius width height x y"
  shows "window_T radius width height c src x y = uint v * (2 * radius) ^ 2"
proof -
  have "chan width c src i j = uint v"
    if "x - radius < i" "i \<le> x + radius" "y - radius < j" "j \<le> y + radius" for i j
    using that i r u by (auto simp: chan_def uniform_def inset_def)
  then have "wsum (chan width c src) (x - radius) (x + radius) (y - radius) (y + radius)
      = uint v * (x + radius - (x - radius)) * (y + radius - (y - radius))"
    using r by (intro wsum_const) auto
  also have "\<dots> = uint v * (2 * radius) ^ 2"
    by (simp add: power2_eq_square algebra_simps)
  finally show ?thesis
    using inset_window_T(5)[OF r i, of c src] by simp
qed

lemma window_T_int32:
  assumes r: "0 \<le> radius" and i: "inset radius width height x y"
    and t: "window_T radius width height channel src x y < 2 ^ 31"
  shows "int32 (window_T radius width height channel src x y)
           = window_T radius width height channel src x y"
proof -
  have "window_T radius width height channel src x y
       = wsum (chan width channel src) (x - radius) (x + radius) (y - radius) (y + radius)"
    using r i by (rule inset_window_T(5))
  then have "0 \<le> window_T radius width height channel src x y"
    by (simp add: wsum_nonneg chan_nonneg)
  then show ?thesis using t by (intro int32_id) auto
qed

lemma blur_cell_window:
  assumes wfb: "wf_buffers width height src precalc" and r: "0 \<le> radius"
    and c: "0 \<le> channel" "channel < 4"
    and i: "inset radius width height x y"
    and t: "window_T radius width height channel src x y < 2 ^ 31"
    and ls: "int (length buf) = 4 * width * height"
  shows "blur_cell mul radius width height (ptable width height channel src) x y
            (offset width channel x y) buf
           = bnd (to_uchar (double_mul (window_T radius width height channel src x y) mul))
               (\<lambda>v. Inr (buf[nat (offset width channel x y) := v]))"
proof -
  have xy: "0 \<le> x" "x < width" "0 \<le> y" "y < height"
    using inset_range[OF r i] by auto
  have "0 < width * height" using wfb by (simp add: wf_buffers_def)
  then have lt: "int (length (ptable width height channel src)) = width * height"
    by (simp add: length_ptable)
  have "sint (tot_at radius width height (ptable width height channel src) x y)
      = int32 (window_T radius width height channel src x y)"
    using r xy by (simp add: tot_at_ptable int32_def)
  then have "blur_value mul radius width height (ptable width height channel src) x y
      = to_uchar (double_mul (window_T radius width height channel src x y) mul)"
    using window_T_int32[OF r i t] by (simp add: blur_value_def)
  then show ?thesis
    using blur_cell_ok[OF r xy c refl ls lt, of mul] by simp
qed

section \<open>The claims\<close>




text \<open>
  Claim C2 fails on the code. With a caller's radius of 1 the effective radius is 0: the
  inset rectangle is the whole image, not empty, every window is empty (\<open>tot = 0\<close>)
  and \<open>mul = 1.f / 0\<close> is infinite, so the first pixel of the blur step converts
  \<open>0 * inf\<close>, a NaN, to \<open>unsigned char\<close>. The buffer is not returned as it was: on a
  1 x 1 image with the bytes 255 the call ends in the undefined conversion.
\<close>

theorem surface_blur_radius_one_undefined:
  "well_formed \<lparr>surf_width = 1, surf_height = 1, surf_data = [255, 255, 255, 255]\<rparr>
   \<and> surface_blur (\<lambda>_. 0) \<lparr>surf_width = 1, surf_height = 1, surf_data = [255, 255, 255, 255]\<rparr> 1
        = Inl UndefinedConversion
   \<and> surface_blur (\<lambda>_. 0) \<lparr>surf_width = 1, surf_height = 1, surf_data = [255, 255, 255, 255]\<rparr> 1
        \<noteq> Inr [255, 255, 255, 255]"
  by code_simp

text \<open>
  Claim C3. For a well-formed surface and a caller's radius of at least 2, with
  \<open>er = radius0 - 1\<close>. Under the C++ rules, where the call stops at a conversion that has
  no defined value: when the call completes, the buffer has the length it had and every
  byte of a pixel outside the inset rectangle of \<open>er\<close> is the byte the caller supplied;
  when the inset rectangle is empty (\<open>width - er \<le> er\<close> or \<open>height - er \<le> er\<close>) the
  call completes and returns the buffer unchanged; and with a rectangle that is not empty
  the call completes at least whenever \<open>255 * (2 * er) ^ 2 < 2 ^ 31\<close>. As compiled code,
  where such a conversion delivers some byte and the call goes on: whatever bytes they
  are, the call completes, the buffer has the length it had and every byte of a pixel
  outside the inset rectangle is the byte the caller supplied. This is for every radius
  from 2 on, also for those from 1452 on at which a windowed sum can pass \<open>2 ^ 31\<close>. The
  compiled call returns what the call under the C++ rules returns whenever that
  completes, so with an empty rectangle it too returns the buffer unchanged.
\<close>

theorem surface_blur_frame:
  assumes "well_formed surf" "2 \<le> radius0"
  shows "(\<forall>src'. surface_blur heap surf radius0 = Inr src' \<longrightarrow>
            length src' = length (surf_data surf)
            \<and> (\<forall>x y c. 0 \<le> x \<and> x < surf_width surf \<and> 0 \<le> y \<and> y < surf_height surf
                  \<and> 0 \<le> c \<and> c < 4
                  \<and> \<not> inset (radius0 - 1) (surf_width surf) (surf_height surf) x y \<longrightarrow>
                  src' ! nat (offset (surf_width surf) c x y)
                    = surf_data surf ! nat (offset (surf_width surf) c x y)))
    \<and> (surf_width surf - (radius0 - 1) \<le> radius0 - 1
         \<or> surf_height surf - (radius0 - 1) \<le> radius0 - 1 \<longrightarrow>
        surface_blur heap surf radius0 = Inr (surf_data surf))
    \<and> (255 * (2 * (radius0 - 1)) ^ 2 < 2 ^ 31 \<longrightarrow>
        (\<exists>src'. surface_blur heap surf radius0 = Inr src'))
    \<and> (\<forall>ub. \<exists>src'. surface_blur_m ub heap surf radius0 = Inr src'
          \<and> length src' = length (surf_data surf)
          \<and> (\<forall>x y c. 0 \<le> x \<and> x < surf_width surf \<and> 0 \<le> y \<and> y < surf_height surf
                \<and> 0 \<le> c \<and> c < 4
                \<and> \<not> inset (radius0 - 1) (surf_width surf) (surf_height surf) x y \<longrightarrow>
                src' ! nat (offset (surf_width surf) c x y)
                  = surf_data surf ! nat (offset (surf_width surf) c x y)))
    \<and> (\<forall>ub src'. surface_blur heap surf radius0 = Inr src' \<longrightarrow>
          surface_blur_m ub heap surf radius0 = Inr src')
    \<and> (\<forall>ub. surf_width surf - (radius0 - 1) \<le> radius0 - 1
         \<or> surf_height surf - (radius0 - 1) \<le> radius0 - 1 \<longrightarrow>
        surface_blur_m ub heap surf radius0 = Inr (surf_data surf))"
proof -
  have strict: "(\<forall>src'. surface_blur heap surf radius0 = Inr src' \<longrightarrow>
            length src' = length (surf_data surf)
            \<and> (\<forall>x y c. 0 \<le> x \<and> x < surf_width surf \<and> 0 \<le> y \<and> y < surf_height surf
                  \<and> 0 \<le> c \<and> c < 4
                  \<and> \<not> inset (radius0 - 1) (surf_width surf) (surf_height surf) x y \<longrightarrow>
                  src' ! nat (offset (surf_width surf) c x y)
                    = surf_data surf ! nat (offset (surf_width surf) c x y)))
    \<and> (surf_width surf - (radius0 - 1) \<le> radius0 - 1
         \<or> surf_height surf - (radius0 - 1) \<le> radius0 - 1 \<longrightarrow>
        surface_blur heap surf radius0 = Inr (surf_data surf))
    \<and> (255 * (2 * (radius0 - 1)) ^ 2 < 2 ^ 31 \<longrightarrow>
        (\<exists>src'. surface_blur heap surf radius0 = Inr src'))"
  proof (intro conjI allI impI)
    assume "255 * (2 * (radius0 - 1)) ^ 2 < 2 ^ 31"
    then show "\<exists>src'. surface_blur heap surf radius0 = Inr src'"
      using assms by (intro surface_blur_total)
  next
    fix src'
    assume res: "surface_blur heap surf radius0 = Inr src'"
    let ?w = "surf_width surf" and ?h = "surf_height surf" and ?s = "surf_data surf"
    let ?r = "radius0 - 1"
    let ?I = "\<lambda>st. wf_buffers ?w ?h (fst st) (snd st) \<and> length (fst st) = length ?s
        \<and> (\<forall>x y c. 0 \<le> x \<and> x < ?w \<and> 0 \<le> y \<and> y < ?h \<and> 0 \<le> c \<and> c < 4
              \<and> \<not> inset ?r ?w ?h x y \<longrightarrow>
              fst st ! nat (offset ?w c x y) = ?s ! nat (offset ?w c x y))"
    have r: "0 \<le> ?r" using assms(2) by simp
    have step: "case_sum (\<lambda>e. True) ?I (channel_pass (mul_of ?r) ?r ?w ?h c st)"
      if c: "0 \<le> c" "c < 4" and i: "?I st" for c st
    proof (cases "channel_pass (mul_of ?r) ?r ?w ?h c st")
      case (Inl e)
      then show ?thesis by simp
    next
      case (Inr st')
      obtain s p where st: "st = (s, p)" by (cases st)
      obtain s' p' where st': "st' = (s', p')" by (cases st')
      have wfb: "wf_buffers ?w ?h s p" using i st by simp
      have ok: "wf_buffers ?w ?h s' p'" "pass_post (mul_of ?r) ?r ?w ?h c s s'"
        using channel_pass_ok[OF wfb r c, of "mul_of ?r"] Inr st st' by auto
      have "s' ! nat (offset ?w c' x y) = ?s ! nat (offset ?w c' x y)"
        if h: "0 \<le> x \<and> x < ?w \<and> 0 \<le> y \<and> y < ?h \<and> 0 \<le> c' \<and> c' < 4 \<and> \<not> inset ?r ?w ?h x y"
        for x y c'
      proof -
        have "s' ! nat (offset ?w c' x y) = s ! nat (offset ?w c' x y)"
          using h by (intro pass_post_outside[OF ok(2)]) auto
        then show ?thesis using i st h by simp
      qed
      moreover have "length s' = length ?s" using ok(2) i st by (simp add: pass_post_def)
      ultimately show ?thesis using Inr st' ok(1) by simp
    qed
    have "case_sum (\<lambda>e. True) (\<lambda>src'. \<exists>precalc'. ?I (src', precalc'))
        (surface_blur heap surf radius0)"
      using step well_formed_wf[OF assms(1), of heap]
      by (intro surface_blur_rule[of ?I]) auto
    then have post: "\<exists>precalc'. ?I (src', precalc')" using res by simp
    show "length src' = length ?s" using post by auto
    fix x y c :: int
    assume "0 \<le> x \<and> x < ?w \<and> 0 \<le> y \<and> y < ?h \<and> 0 \<le> c \<and> c < 4 \<and> \<not> inset ?r ?w ?h x y"
    then show "src' ! nat (offset ?w c x y) = ?s ! nat (offset ?w c x y)"
      using post by auto
  next
    let ?w = "surf_width surf" and ?h = "surf_height surf" and ?s = "surf_data surf"
    let ?r = "radius0 - 1"
    assume e: "?w - ?r \<le> ?r \<or> ?h - ?r \<le> ?r"
    let ?I = "\<lambda>st. wf_buffers ?w ?h (fst st) (snd st) \<and> fst st = ?s"
    have step: "case_sum (\<lambda>e. False) ?I (channel_pass (mul_of ?r) ?r ?w ?h c st)"
      if c: "0 \<le> c" "c < 4" and i: "?I st" for c st
    proof -
      obtain s p where st: "st = (s, p)" by (cases st)
      have wfb: "wf_buffers ?w ?h s p" and ss: "s = ?s" using i st by auto
      have "channel_pass (mul_of ?r) ?r ?w ?h c (s, p) = Inr (s, ptable ?w ?h c s)"
        using wfb c e by (rule channel_pass_empty)
      moreover have "wf_buffers ?w ?h s (ptable ?w ?h c s)"
        using wfb by (simp add: wf_buffers_def length_ptable)
      ultimately show ?thesis using st ss by simp
    qed
    have "case_sum (\<lambda>e. False) (\<lambda>src'. \<exists>precalc'. ?I (src', precalc'))
        (surface_blur heap surf radius0)"
      using step well_formed_wf[OF assms(1), of heap]
      by (intro surface_blur_rule[of ?I]) auto
    then show "surface_blur heap surf radius0 = Inr ?s"
      by (cases "surface_blur heap surf radius0") auto
  qed
  have r0: "1 \<le> radius0" using assms(2) by simp
  have m: "\<exists>src'. surface_blur_m ub heap surf radius0 = Inr src'
          \<and> length src' = length (surf_data surf)
          \<and> (\<forall>x y c. 0 \<le> x \<and> x < surf_width surf \<and> 0 \<le> y \<and> y < surf_height surf
                \<and> 0 \<le> c \<and> c < 4
                \<and> \<not> inset (radius0 - 1) (surf_width surf) (surf_height surf) x y \<longrightarrow>
                src' ! nat (offset (surf_width surf) c x y)
                  = surf_data surf ! nat (offset (surf_width surf) c x y))" for ub
    using assms(1) r0 by (rule surface_blur_m_frame)
  have a: "surface_blur_m ub heap surf radius0 = Inr src'"
    if "surface_blur heap surf radius0 = Inr src'" for ub src'
    using that by (rule surface_blur_agree)
  have e: "surface_blur_m ub heap surf radius0 = Inr (surf_data surf)"
    if "surf_width surf - (radius0 - 1) \<le> radius0 - 1
         \<or> surf_height surf - (radius0 - 1) \<le> radius0 - 1" for ub
    using strict that by (intro a) blast
  show ?thesis
    using strict m a e by (intro conjI allI impI) blast+
qed

text \<open>
  The theorem at two inputs. At a 3 x 3 image with bytes 0 .. 35 and a caller's radius of
  2 the inset rectangle is the centre pixel: the call rewrites its four bytes, at the
  offsets 16 to 19, and the bytes of the corner pixel \<open>(0, 0)\<close> and of the edge pixel
  \<open>(2, 1)\<close> come back as they were. At a 2903 x 2903 image of bytes 255 and a caller's
  radius of 1452 the inset rectangle is the pixel \<open>(1451, 1451)\<close> and its windowed sum
  is \<open>255 * 2902 * 2902\<close>, past \<open>2 ^ 31\<close>: under the C++ rules the call stops at the
  conversion, the compiled call completes and the byte of the corner pixel is as it was.
\<close>

theorem surface_blur_frame_witness:
  "well_formed \<lparr>surf_width = 3, surf_height = 3, surf_data = map word_of_nat [0..<36]\<rparr>
   \<and> (2::int) \<le> 2
   \<and> inset (2 - 1) 3 3 1 1
   \<and> surface_blur (\<lambda>_. 7)
        \<lparr>surf_width = 3, surf_height = 3, surf_data = map word_of_nat [0..<36]\<rparr> 2
        = Inr ((map word_of_nat [0..<36])[16 := 26, 17 := 27, 18 := 28, 19 := 29])
   \<and> surface_blur_m (\<lambda>_. 0) (\<lambda>_. 7)
        \<lparr>surf_width = 3, surf_height = 3, surf_data = map word_of_nat [0..<36]\<rparr> 2
        = Inr ((map word_of_nat [0..<36])[16 := 26, 17 := 27, 18 := 28, 19 := 29])
   \<and> length ((map word_of_nat [0..<36] :: 8 word list)[16 := 26, 17 := 27, 18 := 28, 19 := 29])
        = length (map word_of_nat [0..<36] :: 8 word list)
   \<and> (map word_of_nat [0..<36])[16 := 26, 17 := 27, 18 := 28, 19 := 29] ! nat (offset 3 0 0 0)
        = (map word_of_nat [0..<36] :: 8 word list) ! nat (offset 3 0 0 0)
   \<and> (map word_of_nat [0..<36])[16 := 26, 17 := 27, 18 := 28, 19 := 29] ! nat (offset 3 2 2 1)
        = (map word_of_nat [0..<36] :: 8 word list) ! nat (offset 3 2 2 1)
   \<and> well_formed \<lparr>surf_width = 2903, surf_height = 2903, surf_data = replicate 33709636 255\<rparr>
   \<and> (2::int) \<le> 1452
   \<and> inset (1452 - 1) 2903 2903 1451 1451
   \<and> surface_blur (\<lambda>_. 7)
        \<lparr>surf_width = 2903, surf_height = 2903, surf_data = replicate 33709636 255\<rparr> 1452
        = Inl UndefinedConversion
   \<and> (\<exists>src'. surface_blur_m (\<lambda>_. 0) (\<lambda>_. 7)
        \<lparr>surf_width = 2903, surf_height = 2903, surf_data = replicate 33709636 255\<rparr> 1452
          = Inr src'
        \<and> length src' = length (replicate 33709636 (255 :: 8 word))
        \<and> src' ! nat (offset 2903 0 0 0) = replicate 33709636 255 ! nat (offset 2903 0 0 0))"
proof -
  let ?D = "map word_of_nat [0..<36] :: 8 word list"
  let ?S = "\<lparr>surf_width = 3, surf_height = 3, surf_data = ?D\<rparr>"
  let ?R = "?D[16 := 26, 17 := 27, 18 := 28, 19 := 29]"
  have h: "well_formed ?S" by (simp add: well_formed_def)
  have n: "(2::int) \<le> 2" by simp
  have i: "inset (2 - 1) 3 3 1 1" by (simp add: inset_def)
  have run: "surface_blur (\<lambda>_. 7) ?S 2 = Inr ?R" by code_simp
  note th = surface_blur_frame[OF h n, of "\<lambda>_. 7"]
  have m: "surface_blur_m (\<lambda>_. 0) (\<lambda>_. 7) ?S 2 = Inr ?R"
    using run
    by (rule th[THEN conjunct2, THEN conjunct2, THEN conjunct2, THEN conjunct2, THEN conjunct1,
          rule_format])
  have f: "length ?R = length (surf_data ?S)
      \<and> (\<forall>x y c. 0 \<le> x \<and> x < surf_width ?S \<and> 0 \<le> y \<and> y < surf_height ?S
            \<and> 0 \<le> c \<and> c < 4 \<and> \<not> inset (2 - 1) (surf_width ?S) (surf_height ?S) x y \<longrightarrow>
            ?R ! nat (offset (surf_width ?S) c x y)
              = surf_data ?S ! nat (offset (surf_width ?S) c x y))"
    using run by (rule th[THEN conjunct1, rule_format])
  have l: "length ?R = length ?D" using f by simp
  have f1: "?R ! nat (offset 3 0 0 0) = ?D ! nat (offset 3 0 0 0)"
    using f[THEN conjunct2, rule_format, of 0 0 0] by (simp add: inset_def)
  have f2: "?R ! nat (offset 3 2 2 1) = ?D ! nat (offset 3 2 2 1)"
    using f[THEN conjunct2, rule_format, of 2 1 2] by (simp add: inset_def)
  define W :: "8 word list" where "W = replicate 33709636 255"
  let ?T = "\<lparr>surf_width = 2903, surf_height = 2903, surf_data = W\<rparr>"
  have h': "well_formed ?T" by (simp add: well_formed_def W_def)
  have n': "(2::int) \<le> 1452" by simp
  have i': "inset (1452 - 1) 2903 2903 1451 1451" by (simp add: inset_def)
  have u: "uniform 2903 2903 0 255 W"
    unfolding W_def by (rule uniform_replicate) simp_all
  have t: "window_T 1451 2903 2903 0 W 1451 1451 = 2147509020"
    using window_T_uniform[OF u _ i'] by simp
  have stop: "surface_blur (\<lambda>_. 7) ?T 1452 = Inl UndefinedConversion"
    using h' _ _ _
  proof (rule surface_blur_stops)
    show "(1::int) \<le> 1452" by simp
    show "inset (1452 - 1) (surf_width ?T) (surf_height ?T) 1451 1451" using i' by simp
    show "to_uchar (double_mul
        (int32 (window_T (1452 - 1) (surf_width ?T) (surf_height ?T) 0 (surf_data ?T) 1451 1451))
        (mul_of (1452 - 1))) = Inl UndefinedConversion"
      using conversion_undefined_1451 by (simp add: t)
  qed
  note th' = surface_blur_frame[OF h' n', of "\<lambda>_. 7"]
  obtain src' where m': "surface_blur_m (\<lambda>_. 0) (\<lambda>_. 7) ?T 1452 = Inr src'"
    and l': "length src' = length (surf_data ?T)"
    and f': "\<forall>x y c. 0 \<le> x \<and> x < surf_width ?T \<and> 0 \<le> y \<and> y < surf_height ?T
            \<and> 0 \<le> c \<and> c < 4 \<and> \<not> inset (1452 - 1) (surf_width ?T) (surf_height ?T) x y \<longrightarrow>
            src' ! nat (offset (surf_width ?T) c x y)
              = surf_data ?T ! nat (offset (surf_width ?T) c x y)"
    using th'[THEN conjunct2, THEN conjunct2, THEN conjunct2, THEN conjunct1, rule_format,
        of "\<lambda>_. 0"] by blast
  have f1': "src' ! nat (offset 2903 0 0 0) = W ! nat (offset 2903 0 0 0)"
    using f'[rule_format, of 0 0 0] by (simp add: inset_def)
  have l1': "length src' = length W" using l' by simp
  have e: "\<exists>src'. surface_blur_m (\<lambda>_. 0) (\<lambda>_. 7) ?T 1452 = Inr src'
        \<and> length src' = length W
        \<and> src' ! nat (offset 2903 0 0 0) = W ! nat (offset 2903 0 0 0)"
    using m' l1' f1' by blast
  show ?thesis
    unfolding W_def[symmetric]
    by (intro conjI) (rule h n i run m l f1 f2 h' n' i' stop e)+
qed

text \<open>
  Claim C4. The call is exactly three iterations, each iteration is the passes over the
  channels 0, 1, 2, 3 in this order, and each pass starts from the buffers the pass
  before it left: a pass is the precomputation step over the whole image followed by the
  blur step, and what an iteration wrote is what the precomputation steps of the next
  iteration read.
\<close>

theorem surface_blur_schedule:
  "surface_blur heap surf radius0 =
     (let pass = channel_pass (mul_of (radius0 - 1)) (radius0 - 1) (surf_width surf) (surf_height surf);
          iteration = (\<lambda>st0. bnd (pass 0 st0) (\<lambda>st1. bnd (pass 1 st1) (\<lambda>st2.
                         bnd (pass 2 st2) (\<lambda>st3. pass 3 st3))))
      in bnd (iteration (surf_data surf, malloc_unsigned heap (surf_width surf * surf_height surf)))
           (\<lambda>st1. bnd (iteration st1) (\<lambda>st2. bnd (iteration st2)
              (\<lambda>(src', precalc'). Inr src'))))
   \<and> (\<forall>mul radius width height channel src precalc.
        channel_pass mul radius width height channel (src, precalc) =
          bnd (prefix_y width height src 0 channel 0 precalc) (\<lambda>precalc'.
          bnd (blur_y mul radius width height precalc' radius
                 (radius * width * 4 + radius * 4 + channel) src) (\<lambda>src'.
          Inr (src', precalc'))))"
proof -
  have b: "bnd (bnd m f) g = bnd m (\<lambda>x. bnd (f x) g)" for m :: "error + 'a"
    and f :: "'a \<Rightarrow> error + 'b" and g :: "'b \<Rightarrow> error + 'c"
    by (cases m) simp_all
  show ?thesis
    by (simp add: surface_blur_def Let_def iteration_loop_unrolled channel_loop_unrolled
        channel_pass_def b)
qed

text \<open>
  Claim C5. For every caller's radius \<open>radius0\<close> the call is the three iterations over
  the channels 0, 1, 2, 3 in which every pass is run with the radius \<open>radius0 - 1\<close> and
  with the multiplier made from \<open>radius0 - 1\<close>, the first pass on the buffer of the
  surface and each later one on what the pass before it left. The multiplier is the
  single-precision reciprocal of the \<open>int\<close> \<open>((radius0 - 1) * 2) * ((radius0 - 1) * 2)\<close>.
  A pass run with these two that completes has rewritten exactly the bytes of its channel
  in the inset rectangle of \<open>radius0 - 1\<close>, each from the window with the corners
  \<open>x - (radius0 - 1)\<close>, \<open>x + (radius0 - 1)\<close>, \<open>y - (radius0 - 1)\<close>,
  \<open>y + (radius0 - 1)\<close> clamped to the image.
\<close>

theorem effective_radius:
  "surface_blur heap surf radius0 =
     (let pass = channel_pass (mul_of (radius0 - 1)) (radius0 - 1)
                   (surf_width surf) (surf_height surf);
          iteration = (\<lambda>st0. bnd (pass 0 st0) (\<lambda>st1. bnd (pass 1 st1) (\<lambda>st2.
                         bnd (pass 2 st2) (\<lambda>st3. pass 3 st3))))
      in bnd (iteration (surf_data surf, malloc_unsigned heap (surf_width surf * surf_height surf)))
           (\<lambda>st1. bnd (iteration st1) (\<lambda>st2. bnd (iteration st2)
              (\<lambda>(src', precalc'). Inr src'))))
   \<and> mul_of (radius0 - 1)
       = float_recip (float_of_int (int32 (((radius0 - 1) * 2) * ((radius0 - 1) * 2))))
   \<and> (\<forall>width height channel src precalc src' precalc' x y.
        wf_buffers width height src precalc \<and> 1 \<le> radius0 \<and> 0 \<le> channel \<and> channel < 4
        \<and> channel_pass (mul_of (radius0 - 1)) (radius0 - 1) width height channel (src, precalc)
             = Inr (src', precalc')
        \<and> 0 \<le> x \<and> x < width \<and> 0 \<le> y \<and> y < height \<longrightarrow>
        (if inset (radius0 - 1) width height x y
         then to_uchar (double_mul (int32 (window_T (radius0 - 1) width height channel src x y))
                (mul_of (radius0 - 1))) = Inr (src' ! nat (offset width channel x y))
         else src' ! nat (offset width channel x y) = src ! nat (offset width channel x y)))"
proof (intro conjI allI impI)
  have b: "bnd (bnd m f) g = bnd m (\<lambda>x. bnd (f x) g)" for m :: "error + 'a"
    and f :: "'a \<Rightarrow> error + 'b" and g :: "'b \<Rightarrow> error + 'c"
    by (cases m) simp_all
  show "surface_blur heap surf radius0 =
     (let pass = channel_pass (mul_of (radius0 - 1)) (radius0 - 1)
                   (surf_width surf) (surf_height surf);
          iteration = (\<lambda>st0. bnd (pass 0 st0) (\<lambda>st1. bnd (pass 1 st1) (\<lambda>st2.
                         bnd (pass 2 st2) (\<lambda>st3. pass 3 st3))))
      in bnd (iteration (surf_data surf, malloc_unsigned heap (surf_width surf * surf_height surf)))
           (\<lambda>st1. bnd (iteration st1) (\<lambda>st2. bnd (iteration st2)
              (\<lambda>(src', precalc'). Inr src'))))"
    by (simp add: surface_blur_def Let_def iteration_loop_unrolled channel_loop_unrolled b)
  show "mul_of (radius0 - 1)
       = float_recip (float_of_int (int32 (((radius0 - 1) * 2) * ((radius0 - 1) * 2))))"
    by (rule mul_of_def)
next
  fix width height channel src precalc src' precalc' x y
  let ?r = "radius0 - 1"
  assume h: "wf_buffers width height src precalc \<and> 1 \<le> radius0 \<and> 0 \<le> channel \<and> channel < 4
        \<and> channel_pass (mul_of ?r) ?r width height channel (src, precalc) = Inr (src', precalc')
        \<and> 0 \<le> x \<and> x < width \<and> 0 \<le> y \<and> y < height"
  then have r: "0 \<le> ?r" by simp
  have pp: "pass_post (mul_of ?r) ?r width height channel src src'"
    using channel_pass_ok[OF _ r, of width height src precalc channel "mul_of ?r"] h by simp
  show "if inset ?r width height x y
         then to_uchar (double_mul (int32 (window_T ?r width height channel src x y))
                (mul_of ?r)) = Inr (src' ! nat (offset width channel x y))
         else src' ! nat (offset width channel x y) = src ! nat (offset width channel x y)"
  proof (cases "inset ?r width height x y")
    case True
    then show ?thesis using pass_post_inset[OF pp r _ _ True] h by simp
  next
    case False
    then show ?thesis using pass_post_outside[OF pp, of x y channel] h by simp
  qed
qed

text \<open>
  The theorem at a 3 x 3 image with bytes 0 .. 35 and a caller's radius of 2. The whole
  call rewrites the four bytes of the centre pixel, the one pixel of the inset rectangle
  of the radius 1, and nothing else; the first pass makes the byte 16 of the centre pixel
  the mean 24 of the bytes 16, 20, 28, 32 of the 2 x 2 window.
\<close>

theorem effective_radius_witness:
  "surface_blur (\<lambda>_. 7)
       \<lparr>surf_width = 3, surf_height = 3, surf_data = map word_of_nat [0..<36]\<rparr> 2
     = Inr ((map word_of_nat [0..<36])[16 := 26, 17 := 27, 18 := 28, 19 := 29])
   \<and> wf_buffers 3 3 (map word_of_nat [0..<36]) (replicate 9 0) \<and> (1::int) \<le> 2
   \<and> (0::int) \<le> 0 \<and> (0::int) < 4
   \<and> channel_pass (mul_of (2 - 1)) (2 - 1) 3 3 0 (map word_of_nat [0..<36], replicate 9 0)
         = Inr ((map word_of_nat [0..<36])[16 := 24], [0, 4, 12, 12, 32, 60, 36, 84, 144])
   \<and> inset (2 - 1) 3 3 1 1
   \<and> to_uchar (double_mul (int32 (window_T (2 - 1) 3 3 0 (map word_of_nat [0..<36]) 1 1))
         (mul_of (2 - 1)))
         = Inr ((map word_of_nat [0..<36])[16 := 24] ! nat (offset 3 0 1 1))"
proof -
  let ?S = "\<lparr>surf_width = 3, surf_height = 3, surf_data = map word_of_nat [0..<36]\<rparr>"
  have h1: "wf_buffers 3 3 (map word_of_nat [0..<36]) (replicate 9 0)"
    by (simp add: wf_buffers_def)
  have h2: "inset (2 - 1) 3 3 1 1" by (simp add: inset_def)
  have h3: "channel_pass (mul_of (2 - 1)) (2 - 1) 3 3 0 (map word_of_nat [0..<36], replicate 9 0)
         = Inr ((map word_of_nat [0..<36])[16 := 24], [0, 4, 12, 12, 32, 60, 36, 84, 144])"
    by code_simp
  have run: "(let pass = channel_pass (mul_of (2 - 1)) (2 - 1) (surf_width ?S) (surf_height ?S);
          iteration = (\<lambda>st0. bnd (pass 0 st0) (\<lambda>st1. bnd (pass 1 st1) (\<lambda>st2.
                         bnd (pass 2 st2) (\<lambda>st3. pass 3 st3))))
      in bnd (iteration (surf_data ?S, malloc_unsigned (\<lambda>_. 7) (surf_width ?S * surf_height ?S)))
           (\<lambda>st1. bnd (iteration st1) (\<lambda>st2. bnd (iteration st2)
              (\<lambda>(src', precalc'). Inr src'))))
      = Inr ((map word_of_nat [0..<36])[16 := 26, 17 := 27, 18 := 28, 19 := 29])"
    by code_simp
  have h4: "surface_blur (\<lambda>_. 7) ?S 2
      = Inr ((map word_of_nat [0..<36])[16 := 26, 17 := 27, 18 := 28, 19 := 29])"
    by (rule trans[OF effective_radius[of "\<lambda>_. 7" ?S 2, THEN conjunct1] run])
  have "if inset (2 - 1) 3 3 1 1
     then to_uchar (double_mul (int32 (window_T (2 - 1) 3 3 0 (map word_of_nat [0..<36]) 1 1))
            (mul_of (2 - 1))) = Inr ((map word_of_nat [0..<36])[16 := 24] ! nat (offset 3 0 1 1))
     else (map word_of_nat [0..<36])[16 := 24] ! nat (offset 3 0 1 1)
            = (map word_of_nat [0..<36] :: 8 word list) ! nat (offset 3 0 1 1)"
    by (rule effective_radius[of "\<lambda>_. 7" ?S 2,
        THEN conjunct2, THEN conjunct2, rule_format,
        of 3 3 "map word_of_nat [0..<36]" "replicate 9 0" 0 "(map word_of_nat [0..<36])[16 := 24]"
          "[0, 4, 12, 12, 32, 60, 36, 84, 144]" 1 1])
      (use h1 h3 in simp)
  then have h5: "to_uchar (double_mul (int32 (window_T (2 - 1) 3 3 0 (map word_of_nat [0..<36]) 1 1))
         (mul_of (2 - 1)))
         = Inr ((map word_of_nat [0..<36])[16 := 24] ! nat (offset 3 0 1 1))"
    using h2 by simp
  have n: "(1::int) \<le> 2" "(0::int) \<le> 0" "(0::int) < 4" by simp_all
  show ?thesis
    by (intro conjI) (rule h4 h1 n h3 h2 h5)+
qed

text \<open>
  Claim C6. For a well-formed surface and a caller's radius of at least 1 the call never
  reads or writes the buffer outside its \<open>4 * width * height\<close> bytes and never reads or
  writes the scratch array outside its \<open>width * height\<close> words: every access of the
  model checks its offset, and the call does not end in \<open>OutOfBounds\<close>. The offsets do
  not depend on the multiplier, and the same holds for the loops run with any multiplier
  whatever, in particular with one for which no conversion is undefined.
\<close>

theorem surface_blur_in_bounds:
  assumes "well_formed surf" "1 \<le> radius0"
  shows "surface_blur heap surf radius0 \<noteq> Inl OutOfBounds
    \<and> (\<forall>mul iteration.
          iteration_loop mul (radius0 - 1) (surf_width surf) (surf_height surf) iteration
            (surf_data surf, malloc_unsigned heap (surf_width surf * surf_height surf))
          \<noteq> Inl OutOfBounds)"
proof -
  let ?I = "\<lambda>st. wf_buffers (surf_width surf) (surf_height surf) (fst st) (snd st)"
  have step: "case_sum (\<lambda>e. e \<noteq> OutOfBounds) ?I
      (channel_pass mul (radius0 - 1) (surf_width surf) (surf_height surf) c st)"
    if "0 \<le> c" "c < 4" "?I st" for c st mul
  proof -
    obtain src precalc where st: "st = (src, precalc)" by (cases st)
    have r: "0 \<le> radius0 - 1" using assms(2) by simp
    show ?thesis
      using channel_pass_ok[OF _ r that(1,2), of "surf_width surf" "surf_height surf" src precalc
          mul] that(3)
      unfolding st by (auto split: sum.splits)
  qed
  have "case_sum (\<lambda>e. e \<noteq> OutOfBounds) (\<lambda>src'. \<exists>precalc'. ?I (src', precalc'))
      (surface_blur heap surf radius0)"
    using step well_formed_wf[OF assms(1), of heap]
    by (intro surface_blur_rule[of ?I]) auto
  then have a: "surface_blur heap surf radius0 \<noteq> Inl OutOfBounds"
    by (auto split: sum.splits)
  have l: "case_sum (\<lambda>e. e \<noteq> OutOfBounds) ?I
      (iteration_loop mul (radius0 - 1) (surf_width surf) (surf_height surf) iteration
        (surf_data surf, malloc_unsigned heap (surf_width surf * surf_height surf)))"
    for mul iteration
    using step well_formed_wf[OF assms(1), of heap]
    by (intro iteration_loop_rule[of ?I]) auto
  have b: "iteration_loop mul (radius0 - 1) (surf_width surf) (surf_height surf) iteration
        (surf_data surf, malloc_unsigned heap (surf_width surf * surf_height surf))
      \<noteq> Inl OutOfBounds" for mul iteration
    using l[of mul iteration] by (auto split: sum.splits)
  show ?thesis using a b by blast
qed

text \<open>
  The theorem at a 3 x 3 image with bytes 0 .. 35 and a caller's radius of 2.
\<close>

theorem surface_blur_in_bounds_witness:
  "well_formed \<lparr>surf_width = 3, surf_height = 3, surf_data = map word_of_nat [0..<36]\<rparr>
   \<and> (1::int) \<le> 2
   \<and> surface_blur (\<lambda>_. 7) \<lparr>surf_width = 3, surf_height = 3, surf_data = map word_of_nat [0..<36]\<rparr> 2
        \<noteq> Inl OutOfBounds"
proof -
  have h: "well_formed \<lparr>surf_width = 3, surf_height = 3, surf_data = map word_of_nat [0..<36]\<rparr>"
    by (simp add: well_formed_def)
  show ?thesis
    using h surface_blur_in_bounds[OF h, of 2 "\<lambda>_. 7"] by simp
qed

text \<open>
  Claim C7. The result of the call is a function of the surface (dimensions and bytes)
  and the radius alone: two runs on the same surface with the same radius give the same
  result, whatever \<open>malloc\<close> left in the scratch array of either run.
\<close>

theorem surface_blur_deterministic:
  assumes "well_formed surf"
  shows "surface_blur heap1 surf radius0 = surface_blur heap2 surf radius0"
proof -
  let ?w = "surf_width surf" and ?h = "surf_height surf" and ?s = "surf_data surf"
  let ?m = "mul_of (radius0 - 1)" and ?r = "radius0 - 1"
  have "channel_pass ?m ?r ?w ?h 0 (?s, malloc_unsigned heap1 (?w * ?h))
      = channel_pass ?m ?r ?w ?h 0 (?s, malloc_unsigned heap2 (?w * ?h))"
    using assms by (intro channel_pass_heap well_formed_wf) auto
  then have "channel_loop ?m ?r ?w ?h 0 (?s, malloc_unsigned heap1 (?w * ?h))
      = channel_loop ?m ?r ?w ?h 0 (?s, malloc_unsigned heap2 (?w * ?h))"
    by (simp add: channel_loop_unrolled)
  then have "iteration_loop ?m ?r ?w ?h 0 (?s, malloc_unsigned heap1 (?w * ?h))
      = iteration_loop ?m ?r ?w ?h 0 (?s, malloc_unsigned heap2 (?w * ?h))"
    by (simp add: iteration_loop_unrolled)
  then show ?thesis by (simp add: surface_blur_def Let_def)
qed

text \<open>
  The theorem at a 3 x 3 image with bytes 0 .. 35, a caller's radius of 2 and two
  different contents of the fresh scratch array.
\<close>

theorem surface_blur_deterministic_witness:
  "well_formed \<lparr>surf_width = 3, surf_height = 3, surf_data = map word_of_nat [0..<36]\<rparr>
   \<and> surface_blur (\<lambda>_. 7) \<lparr>surf_width = 3, surf_height = 3, surf_data = map word_of_nat [0..<36]\<rparr> 2
     = surface_blur word_of_nat \<lparr>surf_width = 3, surf_height = 3, surf_data = map word_of_nat [0..<36]\<rparr> 2"
proof -
  have h: "well_formed \<lparr>surf_width = 3, surf_height = 3, surf_data = map word_of_nat [0..<36]\<rparr>"
    by (simp add: well_formed_def)
  show ?thesis
    using h surface_blur_deterministic[OF h, of "\<lambda>_. 7" 2 word_of_nat] by simp
qed

text \<open>
  Claim C8, as the code has it. For a well-formed surface, a caller's radius of at least
  2 and a channel that holds the byte \<open>v\<close> at every pixel: if the conversion of the
  full window sum \<open>v * (2 * er) ^ 2\<close> (\<open>er = radius0 - 1\<close>) gives \<open>v\<close> back, then
  the channel holds \<open>v\<close> at every pixel when the call completes, and after any number
  of the iterations. The call completes at least whenever
  \<open>255 * (2 * er) ^ 2 < 2 ^ 31\<close>. For a caller's radius up to 5 (\<open>er\<close> from 1 to 4)
  the conversion gives every \<open>v\<close> back, so the call completes with the channel
  unchanged; it does not for \<open>er = 5\<close>, where the single-precision \<open>1.f / 100\<close> is
  below \<open>1 / 100\<close>.
\<close>

theorem uniform_channel_fixed:
  assumes "well_formed surf" "2 \<le> radius0" "0 \<le> c" "c < 4"
    and "uniform (surf_width surf) (surf_height surf) c v (surf_data surf)"
  shows "(to_uchar (double_mul (int32 (uint v * (2 * (radius0 - 1)) ^ 2)) (mul_of (radius0 - 1)))
            = Inr v \<longrightarrow>
          (\<forall>src'. surface_blur heap surf radius0 = Inr src' \<longrightarrow>
             uniform (surf_width surf) (surf_height surf) c v src')
          \<and> (\<forall>iteration st'.
               iteration_loop (mul_of (radius0 - 1)) (radius0 - 1) (surf_width surf)
                 (surf_height surf) iteration
                 (surf_data surf, malloc_unsigned heap (surf_width surf * surf_height surf))
                 = Inr st'
               \<longrightarrow> uniform (surf_width surf) (surf_height surf) c v (fst st')))
    \<and> (255 * (2 * (radius0 - 1)) ^ 2 < 2 ^ 31 \<longrightarrow>
          (\<exists>src'. surface_blur heap surf radius0 = Inr src'))
    \<and> (radius0 \<le> 5 \<longrightarrow>
          (\<exists>src'. surface_blur heap surf radius0 = Inr src'
             \<and> uniform (surf_width surf) (surf_height surf) c v src'))"
proof -
  let ?w = "surf_width surf" and ?h = "surf_height surf" and ?s = "surf_data surf"
  let ?r = "radius0 - 1"
  let ?I = "\<lambda>st. wf_buffers ?w ?h (fst st) (snd st) \<and> uniform ?w ?h c v (fst st)"
  let ?conv = "to_uchar (double_mul (int32 (uint v * (2 * ?r) ^ 2)) (mul_of ?r)) = Inr v"
  have r: "0 \<le> ?r" using assms(2) by simp
  have step: "case_sum (\<lambda>e. True) ?I (channel_pass (mul_of ?r) ?r ?w ?h c' st)"
    if conv: ?conv and c': "0 \<le> c'" "c' < 4" and i: "?I st" for c' st
  proof (cases "channel_pass (mul_of ?r) ?r ?w ?h c' st")
    case (Inl e)
    then show ?thesis by simp
  next
    case (Inr st')
    obtain s p where st: "st = (s, p)" by (cases st)
    obtain s' p' where st': "st' = (s', p')" by (cases st')
    have wfb: "wf_buffers ?w ?h s p" and u: "uniform ?w ?h c v s" using i st by auto
    have "wf_buffers ?w ?h s' p'"
      using channel_pass_ok[OF wfb r c', of "mul_of ?r"] Inr st st' by auto
    moreover have "uniform ?w ?h c v s'"
      using uniform_pass[OF wfb r c' assms(3,4) u conv] Inr st st' by simp
    ultimately show ?thesis using Inr st' by simp
  qed
  have init: "?I (?s, malloc_unsigned heap (?w * ?h))"
    using well_formed_wf[OF assms(1), of heap] assms(5) by simp
  have a: "case_sum (\<lambda>e. True) (\<lambda>src'. \<exists>precalc'. ?I (src', precalc'))
      (surface_blur heap surf radius0)" if conv: ?conv
    using step[OF conv] init by (intro surface_blur_rule[of ?I]) auto
  have b: "case_sum (\<lambda>e. True) ?I
      (iteration_loop (mul_of ?r) ?r ?w ?h iteration (?s, malloc_unsigned heap (?w * ?h)))"
    if conv: ?conv for iteration
    using step[OF conv] init by (intro iteration_loop_rule[of ?I]) auto
  have A: "uniform ?w ?h c v src'"
    if ?conv "surface_blur heap surf radius0 = Inr src'" for src'
    using a[OF that(1)] that(2) by auto
  have B: "uniform ?w ?h c v (fst st')"
    if ?conv "iteration_loop (mul_of ?r) ?r ?w ?h iteration (?s, malloc_unsigned heap (?w * ?h))
      = Inr st'" for iteration st'
    using b[OF that(1), of iteration] that(2) by auto
  have C: "\<exists>src'. surface_blur heap surf radius0 = Inr src'"
    if "255 * (2 * ?r) ^ 2 < 2 ^ 31"
    using assms(1,2) that by (rule surface_blur_total)
  have D: "\<exists>src'. surface_blur heap surf radius0 = Inr src' \<and> uniform ?w ?h c v src'"
    if "radius0 \<le> 5"
  proof -
    have r4: "1 \<le> ?r" "?r \<le> 4" using assms(2) that by auto
    have conv: ?conv using r4 by (rule conversion_fixed_small)
    have "(2 * ?r) ^ 2 \<le> (2 * 4) ^ 2" using r4 by (intro power_mono) auto
    then have "255 * (2 * ?r) ^ 2 < 2 ^ 31" by simp
    then obtain src' where "surface_blur heap surf radius0 = Inr src'" using C by blast
    then show ?thesis using A[OF conv] by blast
  qed
  show ?thesis using A B C D by blast
qed

text \<open>
  The theorem at a 3 x 3 image with every byte 200 and a caller's radius of 2.
\<close>

theorem uniform_channel_fixed_witness:
  "well_formed \<lparr>surf_width = 3, surf_height = 3, surf_data = replicate 36 200\<rparr>
   \<and> (2::int) \<le> 2 \<and> (0::int) \<le> 0 \<and> (0::int) < 4
   \<and> uniform 3 3 0 200 (replicate 36 200)
   \<and> to_uchar (double_mul (int32 (uint (200 :: 8 word) * (2 * (2 - 1)) ^ 2)) (mul_of (2 - 1)))
        = Inr 200
   \<and> surface_blur (\<lambda>_. 0) \<lparr>surf_width = 3, surf_height = 3, surf_data = replicate 36 200\<rparr> 2
        = Inr (replicate 36 200)
   \<and> (2::int) \<le> 5"
proof -
  let ?s = "\<lparr>surf_width = 3, surf_height = 3, surf_data = replicate 36 200\<rparr>"
  have h1: "well_formed ?s" by (simp add: well_formed_def)
  have h2: "uniform (surf_width ?s) (surf_height ?s) 0 200 (surf_data ?s)"
    using uniform_replicate[of 36 3 3 0 200] by simp
  have h3: "to_uchar (double_mul (int32 (uint (200 :: 8 word) * (2 * (2 - 1)) ^ 2)) (mul_of (2 - 1)))
        = Inr 200"
    by code_simp
  have h4: "surface_blur (\<lambda>_. 0) ?s 2 = Inr (replicate 36 200)"
    by code_simp
  have "uniform (surf_width ?s) (surf_height ?s) 0 200 (replicate 36 200)"
    by (rule uniform_channel_fixed[OF h1 _ _ _ h2, of 2 "\<lambda>_. 0", THEN conjunct1, rule_format,
          THEN conjunct1, rule_format, OF _ _ _ h3 h4]) simp_all
  then show ?thesis using h1 h2 h3 h4 by simp
qed

text \<open>
  A uniform image is not always a fixed point. On an 11 x 11 image with every byte 1 and
  a caller's radius of 6 the call completes and the four bytes of the pixel \<open>(5, 5)\<close>
  are 0 afterwards.
\<close>

theorem uniform_channel_fixed_counterexample:
  "surface_blur (\<lambda>_. 0) \<lparr>surf_width = 11, surf_height = 11, surf_data = replicate 484 1\<rparr> 6
     = Inr ((replicate 484 1)[240 := 0, 241 := 0, 242 := 0, 243 := 0])
   \<and> (replicate 484 1)[240 := 0, 241 := 0, 242 := 0, 243 := 0] ! nat (offset 11 0 5 5)
       \<noteq> (1 :: 8 word)"
  by code_simp




text \<open>
  Claim C10. For a well-formed buffer and any channel the precomputation step completes
  and leaves at index \<open>x + y * width\<close> of the scratch array the inclusive prefix sum of
  the bytes of the channel modulo \<open>2 ^ 32\<close>. For every pixel of an inset rectangle at
  which the true windowed sum \<open>T\<close> is below \<open>2 ^ 31\<close>, whether or not the prefix sums
  themselves have wrapped: the four-term difference over that array, read as a signed
  \<open>int\<close>, is \<open>T\<close>; the body of the blur loop, run at the pixel on the array the
  precomputation step left, multiplies \<open>T\<close> itself by \<open>mul\<close>, converts the product and
  stores the byte at the pixel; and when the pass over the channel completes, the byte
  of the channel at the pixel is that conversion of \<open>T * mul\<close>.
\<close>

theorem prefix_sums_mod_2_32:
  assumes "wf_buffers width height src precalc" "0 \<le> channel" "channel < 4"
  shows "prefix_y width height src 0 channel 0 precalc = Inr (ptable width height channel src)
    \<and> (\<forall>x y. 0 \<le> x \<and> x < width \<and> 0 \<le> y \<and> y < height \<longrightarrow>
          uint (ptable width height channel src ! nat (x + y * width))
            = psum (chan width channel src) x y mod 2 ^ 32)
    \<and> (\<forall>radius x y. 0 \<le> radius \<and> inset radius width height x y
          \<and> window_T radius width height channel src x y < 2 ^ 31 \<longrightarrow>
          sint (tot_at radius width height (ptable width height channel src) x y)
            = window_T radius width height channel src x y)
    \<and> (\<forall>mul radius x y buf precalc'. 0 \<le> radius \<and> inset radius width height x y
          \<and> window_T radius width height channel src x y < 2 ^ 31
          \<and> int (length buf) = 4 * width * height
          \<and> prefix_y width height src 0 channel 0 precalc = Inr precalc' \<longrightarrow>
          blur_cell mul radius width height precalc' x y (offset width channel x y) buf
            = bnd (to_uchar (double_mul (window_T radius width height channel src x y) mul))
                (\<lambda>v. Inr (buf[nat (offset width channel x y) := v])))
    \<and> (\<forall>mul radius x y src' precalc'. 0 \<le> radius \<and> inset radius width height x y
          \<and> window_T radius width height channel src x y < 2 ^ 31
          \<and> channel_pass mul radius width height channel (src, precalc) = Inr (src', precalc')
          \<longrightarrow>
          to_uchar (double_mul (window_T radius width height channel src x y) mul)
            = Inr (src' ! nat (offset width channel x y)))"
proof (intro conjI allI impI)
  show "prefix_y width height src 0 channel 0 precalc = Inr (ptable width height channel src)"
    using assms by (rule prefix_pass)
next
  fix x y
  assume "0 \<le> x \<and> x < width \<and> 0 \<le> y \<and> y < height"
  then have "ptable width height channel src ! nat (x + y * width)
      = word_of_int (psum (chan width channel src) x y)"
    by (intro ptable_nth) auto
  then show "uint (ptable width height channel src ! nat (x + y * width))
            = psum (chan width channel src) x y mod 2 ^ 32"
    by (simp add: uint_word_of_int)
next
  fix radius x y
  assume h: "0 \<le> radius \<and> inset radius width height x y
          \<and> window_T radius width height channel src x y < 2 ^ 31"
  then have xy: "0 \<le> x" "x < width" "0 \<le> y" "y < height"
    using inset_range[of radius width height x y] by auto
  have "int32 (window_T radius width height channel src x y)
      = window_T radius width height channel src x y"
    using h by (intro window_T_int32) auto
  then show "sint (tot_at radius width height (ptable width height channel src) x y)
            = window_T radius width height channel src x y"
    using h xy by (simp add: tot_at_ptable int32_def)
next
  fix mul radius x y and buf :: "8 word list" and precalc'
  assume h: "0 \<le> radius \<and> inset radius width height x y
          \<and> window_T radius width height channel src x y < 2 ^ 31
          \<and> int (length buf) = 4 * width * height
          \<and> prefix_y width height src 0 channel 0 precalc = Inr precalc'"
  then have p: "precalc' = ptable width height channel src"
    using prefix_pass[OF assms] by simp
  show "blur_cell mul radius width height precalc' x y (offset width channel x y) buf
            = bnd (to_uchar (double_mul (window_T radius width height channel src x y) mul))
                (\<lambda>v. Inr (buf[nat (offset width channel x y) := v]))"
    unfolding p using h by (intro blur_cell_window[OF assms(1) _ assms(2,3)]) auto
next
  fix mul radius x y src' precalc'
  assume h: "0 \<le> radius \<and> inset radius width height x y
          \<and> window_T radius width height channel src x y < 2 ^ 31
          \<and> channel_pass mul radius width height channel (src, precalc) = Inr (src', precalc')"
  then have r: "0 \<le> radius" and i: "inset radius width height x y" by auto
  have pp: "pass_post mul radius width height channel src src'"
    using channel_pass_ok[OF assms(1) r assms(2,3), of mul] h by simp
  have "int32 (window_T radius width height channel src x y)
      = window_T radius width height channel src x y"
    using h by (intro window_T_int32) auto
  then show "to_uchar (double_mul (window_T radius width height channel src x y) mul)
            = Inr (src' ! nat (offset width channel x y))"
    using pass_post_inset[OF pp r assms(2,3) i] by simp
qed

text \<open>
  The theorem at a 4200 x 4200 image with every byte 255, channel 0, effective radius 4
  and the pixel \<open>(4195, 4195)\<close>. The prefix sum at \<open>(4191, 4191)\<close>, the smallest of the
  four the window reads, is \<open>255 * 4192 * 4192 = 4481080320\<close>, above
  \<open>2 ^ 32 = 4294967296\<close>; the scratch array holds \<open>4481080320 - 4294967296\<close> there. The
  windowed sum is \<open>255 * 64 = 16320\<close> and the byte stored is 255.
\<close>

theorem prefix_sums_mod_2_32_witness:
  "wf_buffers 4200 4200 (replicate 70560000 255) (replicate 17640000 0)
   \<and> (0::int) \<le> 0 \<and> (0::int) < 4
   \<and> prefix_y 4200 4200 (replicate 70560000 255) 0 0 0 (replicate 17640000 0)
        = Inr (ptable 4200 4200 0 (replicate 70560000 255))
   \<and> psum (chan 4200 0 (replicate 70560000 255)) 4191 4191 = 4481080320
   \<and> uint (ptable 4200 4200 0 (replicate 70560000 255) ! nat (4191 + 4191 * 4200)) = 186113024
   \<and> (0::int) \<le> 4 \<and> inset 4 4200 4200 4195 4195
   \<and> window_T 4 4200 4200 0 (replicate 70560000 255) 4195 4195 = 16320
   \<and> sint (tot_at 4 4200 4200 (ptable 4200 4200 0 (replicate 70560000 255)) 4195 4195) = 16320
   \<and> blur_cell (mul_of 4) 4 4200 4200 (ptable 4200 4200 0 (replicate 70560000 255)) 4195 4195
        (offset 4200 0 4195 4195) (replicate 70560000 255)
        = Inr ((replicate 70560000 255)[nat (offset 4200 0 4195 4195) := 255])"
proof -
  define W :: "8 word list" where "W = replicate 70560000 255"
  define P :: "32 word list" where "P = replicate 17640000 0"
  have h: "wf_buffers 4200 4200 W P"
    by (simp add: wf_buffers_def W_def P_def)
  have u: "uniform 4200 4200 0 255 W"
    unfolding W_def by (rule uniform_replicate) simp_all
  have i: "inset 4 4200 4200 4195 4195" by (simp add: inset_def)
  have p: "psum (chan 4200 0 W) 4191 4191 = 4481080320"
    using psum_uniform[OF u, of 4191 4191] by simp
  have t: "window_T 4 4200 4200 0 W 4195 4195 = 16320"
    using window_T_uniform[OF u _ i] by simp
  have conv: "to_uchar (double_mul 16320 (mul_of 4)) = Inr 255" by code_simp
  have l: "int (length W) = 4 * 4200 * 4200" by (simp add: W_def)
  note th = prefix_sums_mod_2_32[OF h, of 0]
  have a: "prefix_y 4200 4200 W 0 0 0 P = Inr (ptable 4200 4200 0 W)"
    using th by simp
  have "uint (ptable 4200 4200 0 W ! nat (4191 + 4191 * 4200))
        = psum (chan 4200 0 W) 4191 4191 mod 2 ^ 32"
    by (rule th[THEN conjunct2, THEN conjunct1, rule_format]) simp_all
  then have b: "uint (ptable 4200 4200 0 W ! nat (4191 + 4191 * 4200)) = 186113024"
    unfolding p by simp
  have "sint (tot_at 4 4200 4200 (ptable 4200 4200 0 W) 4195 4195)
        = window_T 4 4200 4200 0 W 4195 4195"
    by (rule th[THEN conjunct2, THEN conjunct2, THEN conjunct1, rule_format])
      (use i t in simp_all)
  then have c: "sint (tot_at 4 4200 4200 (ptable 4200 4200 0 W) 4195 4195) = 16320"
    unfolding t .
  have "blur_cell (mul_of 4) 4 4200 4200 (ptable 4200 4200 0 W) 4195 4195
        (offset 4200 0 4195 4195) W
      = bnd (to_uchar (double_mul (window_T 4 4200 4200 0 W 4195 4195) (mul_of 4)))
          (\<lambda>v. Inr (W[nat (offset 4200 0 4195 4195) := v]))"
    by (rule th[THEN conjunct2, THEN conjunct2, THEN conjunct2, THEN conjunct1, rule_format])
      (use i t l a in simp_all)
  then have d: "blur_cell (mul_of 4) 4 4200 4200 (ptable 4200 4200 0 W) 4195 4195
        (offset 4200 0 4195 4195) W = Inr (W[nat (offset 4200 0 4195 4195) := 255])"
    unfolding t conv bnd_Inr .
  have n: "(0::int) \<le> 0" "(0::int) < 4" "(0::int) \<le> 4" by simp_all
  show ?thesis
    unfolding W_def[symmetric] P_def[symmetric]
    by (intro conjI) (rule h n a p b i t c d)+
qed


end
